theory Spec2Isabelle
  imports Main "HOL-Library.Word" "HOL-Library.Sublist"
begin

section \<open>JavaScript strings\<close>

text \<open>
  A JavaScript string is a sequence of UTF-16 code units. Every character the plugin
  inspects (quotes, backslashes, brackets, control characters, the slash, the dot) is a
  single code unit, so a string is modelled as a list of 16-bit words.
\<close>

type_synonym jschar = "16 word"
type_synonym jsstring = "jschar list"

definition js :: "string \<Rightarrow> jsstring" where
  \<comment> \<open>An ASCII literal as a JavaScript string.\<close>
  "js s = map of_char s"

abbreviation (input) DQUOTE :: jschar where "DQUOTE \<equiv> 0x22"
abbreviation (input) BACKSLASH :: jschar where "BACKSLASH \<equiv> 0x5C"
abbreviation (input) LBRACKET :: jschar where "LBRACKET \<equiv> 0x5B"
abbreviation (input) RBRACKET :: jschar where "RBRACKET \<equiv> 0x5D"
abbreviation (input) SLASH :: jschar where "SLASH \<equiv> 0x2F"
abbreviation (input) HYPHEN :: jschar where "HYPHEN \<equiv> 0x2D"

definition charCodeAt0 :: "jschar \<Rightarrow> nat" where
  \<comment> \<open>\<^verbatim>\<open>ch.charCodeAt(0)\<close> of a one-character string.\<close>
  "charCodeAt0 ch = unat ch"

definition hexDigit :: "nat \<Rightarrow> jschar" where
  \<comment> \<open>The digits \<^verbatim>\<open>0-9a-f\<close> that \<^verbatim>\<open>Number.prototype.toString(16)\<close> prints.\<close>
  "hexDigit d = (if d < 10 then of_nat (48 + d) else of_nat (87 + d))"

fun toString16 :: "nat \<Rightarrow> jsstring" where
  "toString16 n =
     (if n < 16 then [hexDigit n] else toString16 (n div 16) @ [hexDigit (n mod 16)])"

declare toString16.simps [simp del]

definition padStart :: "nat \<Rightarrow> jschar \<Rightarrow> jsstring \<Rightarrow> jsstring" where
  \<comment> \<open>\<^verbatim>\<open>s.padStart(targetLength, pad)\<close> for a one-character pad string.\<close>
  "padStart targetLength pad s = replicate (targetLength - length s) pad @ s"

section \<open>The sanitizer (\<^verbatim>\<open>sanitizeJson\<close>, main.ts 451-494)\<close>

definition controlEscape :: "jschar \<Rightarrow> nat \<Rightarrow> jsstring" where
  \<comment> \<open>The \<^verbatim>\<open>switch (ch)\<close> of the branch \<^verbatim>\<open>code < 0x20\<close>.\<close>
  "controlEscape ch code =
     (if ch = 0x0A then [BACKSLASH, 0x6E]
      else if ch = 0x0D then [BACKSLASH, 0x72]
      else if ch = 0x09 then [BACKSLASH, 0x74]
      else [BACKSLASH, 0x75] @ padStart 4 0x30 (toString16 code))"

text \<open>
  The \<^verbatim>\<open>while (i < raw.length)\<close> loop, with its three variables \<^verbatim>\<open>i\<close>,
  \<^verbatim>\<open>inString\<close> and \<^verbatim>\<open>out\<close> as arguments. The backslash branch advances \<^verbatim>\<open>i\<close>
  twice: once itself and once by the \<^verbatim>\<open>i++\<close> that ends every iteration.
\<close>

function sanitizeLoop :: "jsstring \<Rightarrow> nat \<Rightarrow> bool \<Rightarrow> jsstring list \<Rightarrow> jsstring list" where
  "sanitizeLoop raw i inString out =
     (if i < length raw then
        (if inString then
           (if raw ! i = BACKSLASH then
              sanitizeLoop raw (i + 1 + 1) inString
                (if i + 1 < length raw then out @ [[raw ! i]] @ [[raw ! (i + 1)]]
                 else out @ [[raw ! i]])
            else if raw ! i = DQUOTE then
              sanitizeLoop raw (i + 1) False (out @ [[raw ! i]])
            else if charCodeAt0 (raw ! i) < 0x20 then
              sanitizeLoop raw (i + 1) inString
                (out @ [controlEscape (raw ! i) (charCodeAt0 (raw ! i))])
            else
              sanitizeLoop raw (i + 1) inString (out @ [[raw ! i]]))
         else
           sanitizeLoop raw (i + 1) (if raw ! i = DQUOTE then True else inString)
             (out @ [[raw ! i]]))
      else out)"
  by pat_completeness auto
termination
  by (relation "measure (\<lambda>(raw, i, inString, out). length raw - i)") auto

declare sanitizeLoop.simps [simp del]

definition sanitizeJson :: "jsstring \<Rightarrow> jsstring" where
  \<comment> \<open>\<^verbatim>\<open>out.join("")\<close> of the pieces the loop has pushed.\<close>
  "sanitizeJson raw = concat (sanitizeLoop raw 0 False [])"

subsection \<open>The sanitizer as the specification words it\<close>

text \<open>
  The specification describes a character-by-character scan that tracks whether the
  position is inside a quoted string. A position is outside every string, inside a
  string, or inside a string immediately after a backslash.
\<close>

datatype scanPos = Outside | Inside | AfterBackslash

fun specNext :: "scanPos \<Rightarrow> jschar \<Rightarrow> scanPos" where
  "specNext Outside ch = (if ch = DQUOTE then Inside else Outside)"
| "specNext Inside ch =
     (if ch = BACKSLASH then AfterBackslash else if ch = DQUOTE then Outside else Inside)"
| "specNext AfterBackslash ch = Inside"

definition unicodeEscape4 :: "jschar \<Rightarrow> jsstring" where
  \<comment> \<open>A backslash, the letter u and exactly four hexadecimal digits.\<close>
  "unicodeEscape4 ch =
     [BACKSLASH, 0x75,
      hexDigit (unat ch div 4096), hexDigit (unat ch div 256 mod 16),
      hexDigit (unat ch div 16 mod 16), hexDigit (unat ch mod 16)]"

fun specEmit :: "scanPos \<Rightarrow> jschar \<Rightarrow> jsstring" where
  "specEmit Outside ch = [ch]"
| "specEmit AfterBackslash ch = [ch]"
| "specEmit Inside ch =
     (if ch = 0x0A then [BACKSLASH, 0x6E]
      else if ch = 0x0D then [BACKSLASH, 0x72]
      else if ch = 0x09 then [BACKSLASH, 0x74]
      else if ch < 0x20 then unicodeEscape4 ch
      else [ch])"

fun sanitizeSpec :: "scanPos \<Rightarrow> jsstring \<Rightarrow> jsstring" where
  "sanitizeSpec p [] = []"
| "sanitizeSpec p (ch # rest) = specEmit p ch @ sanitizeSpec (specNext p ch) rest"

fun scanPositions :: "scanPos \<Rightarrow> jsstring \<Rightarrow> scanPos list" where
  \<comment> \<open>The position class of every character of the text.\<close>
  "scanPositions p [] = []"
| "scanPositions p (ch # rest) = p # scanPositions (specNext p ch) rest"

definition noControlInStrings :: "jsstring \<Rightarrow> bool" where
  \<comment> \<open>No character with code point below 0x20 stands inside a quoted string region.\<close>
  "noControlInStrings raw =
     list_all (\<lambda>(p, ch). p = Outside \<or> \<not> ch < 0x20) (zip (scanPositions Outside raw) raw)"

definition exampleDirty :: jsstring where
  \<comment> \<open>A bracket, a quote, \<^verbatim>\<open>a\<close>, the raw characters LF, SOH and US, \<^verbatim>\<open>b\<close>, a
      backslash followed by a raw LF, a quote, a bracket and a raw LF.\<close>
  "exampleDirty =
     [LBRACKET, DQUOTE, 0x61, 0x0A, 0x01, 0x1F, 0x62, BACKSLASH, 0x0A, DQUOTE, RBRACKET, 0x0A]"

definition exampleClean :: jsstring where
  \<comment> \<open>The array of the string \<^verbatim>\<open>a\<close>, escaped newline, \<^verbatim>\<open>b\<close>, followed by a raw LF:
      the only control character is outside the string.\<close>
  "exampleClean =
     [LBRACKET, DQUOTE, 0x61, BACKSLASH, 0x6E, 0x62, DQUOTE, RBRACKET, 0x0A]"

section \<open>The result reconciler (\<^verbatim>\<open>resolveVaultFile\<close>, main.ts 391-435)\<close>

definition isWhiteSpace :: "jschar \<Rightarrow> bool" where
  \<comment> \<open>The code units the regular expression class \<^verbatim>\<open>\s\<close> matches (ECMAScript
      WhiteSpace and LineTerminator).\<close>
  "isWhiteSpace c =
     (c = 0x09 \<or> c = 0x0A \<or> c = 0x0B \<or> c = 0x0C \<or> c = 0x0D \<or> c = 0x20 \<or> c = 0xA0 \<or>
      c = 0x1680 \<or> (0x2000 \<le> c \<and> c \<le> 0x200A) \<or> c = 0x2028 \<or> c = 0x2029 \<or>
      c = 0x202F \<or> c = 0x205F \<or> c = 0x3000 \<or> c = 0xFEFF)"

text \<open>
  \<^verbatim>\<open>s.replace(/\s+/g, "-")\<close>: the global flag replaces every match, and the greedy
  \<^verbatim>\<open>+\<close> makes each match a maximal run of whitespace.
\<close>

function replaceWhitespaceRuns :: "jsstring \<Rightarrow> jsstring" where
  "replaceWhitespaceRuns [] = []"
| "replaceWhitespaceRuns (c # cs) =
     (if isWhiteSpace c then HYPHEN # replaceWhitespaceRuns (dropWhile isWhiteSpace cs)
      else c # replaceWhitespaceRuns cs)"
  by pat_completeness auto
termination
  by (relation "measure length") (auto simp add: length_dropWhile_le less_Suc_eq_le)

text \<open>
  \<^verbatim>\<open>String.prototype.toLowerCase\<close> belongs to the JavaScript runtime, not to the
  plugin; it follows the Unicode case tables. The functions that call it take it as the
  parameter \<open>toLowerCase\<close>, so that what is proved of them holds whatever the tables
  say.
\<close>

definition normalizeForMatch :: "(jsstring \<Rightarrow> jsstring) \<Rightarrow> jsstring \<Rightarrow> jsstring" where
  "normalizeForMatch toLowerCase s = replaceWhitespaceRuns (toLowerCase s)"

definition startsWith :: "jsstring \<Rightarrow> jsstring \<Rightarrow> bool" where
  "startsWith s p = (take (length p) s = p)"

record settings =
  collection :: jsstring
  debugLogging :: bool

definition cleanFilePath :: "settings \<Rightarrow> jsstring \<Rightarrow> jsstring" where
  "cleanFilePath st rawPath =
     (let qmdPrefix = js ''qmd://'' @ collection st @ [SLASH] in
      if startsWith rawPath qmdPrefix then drop (length qmdPrefix) rawPath
      else
        (let colPrefix = collection st @ [SLASH] in
         if startsWith rawPath colPrefix then drop (length colPrefix) rawPath
         else rawPath))"

fun split :: "jschar \<Rightarrow> jsstring \<Rightarrow> jsstring list" where
  \<comment> \<open>\<^verbatim>\<open>s.split(sep)\<close> for a one-character separator; the result is never empty.\<close>
  "split sep [] = [[]]"
| "split sep (c # cs) =
     (if c = sep then [] # split sep cs
      else (case split sep cs of
              [] \<Rightarrow> [[c]]
            | seg # segs \<Rightarrow> (c # seg) # segs))"

definition replaceMdSuffix :: "jsstring \<Rightarrow> jsstring" where
  \<comment> \<open>\<^verbatim>\<open>s.replace(/\.md$/, "")\<close>: without the multiline flag, \<^verbatim>\<open>$\<close> is the end of
      the string.\<close>
  "replaceMdSuffix s =
     (if 3 \<le> length s \<and> drop (length s - 3) s = js ''.md'' then take (length s - 3) s else s)"

text \<open>An entry of \<^verbatim>\<open>vault.getMarkdownFiles()\<close>: the two fields the reconciler reads.\<close>

record TFile =
  path :: jsstring
  basename :: jsstring

text \<open>The two \<^verbatim>\<open>for (const file of allFiles)\<close> loops, each returning at its first hit.\<close>

fun matchBasename :: "(jsstring \<Rightarrow> jsstring) \<Rightarrow> jsstring \<Rightarrow> TFile list \<Rightarrow> jsstring option" where
  "matchBasename toLowerCase qmdFilename [] = None"
| "matchBasename toLowerCase qmdFilename (file # rest) =
     (if normalizeForMatch toLowerCase (basename file) = qmdFilename then Some (path file)
      else matchBasename toLowerCase qmdFilename rest)"

fun matchFullPath :: "(jsstring \<Rightarrow> jsstring) \<Rightarrow> jsstring \<Rightarrow> TFile list \<Rightarrow> jsstring option" where
  "matchFullPath toLowerCase qmdFullNorm [] = None"
| "matchFullPath toLowerCase qmdFullNorm (file # rest) =
     (if normalizeForMatch toLowerCase (replaceMdSuffix (path file)) = qmdFullNorm
      then Some (path file)
      else matchFullPath toLowerCase qmdFullNorm rest)"

text \<open>
  The result \<^verbatim>\<open>{ path: file.path } | null\<close> is the path or \<open>None\<close>. The segment
  \<^verbatim>\<open>cleanPath.split("/").pop()\<close> is the last element of a list that is never empty, and
  \<^verbatim>\<open>|| ""\<close> changes nothing on a string.
\<close>

definition resolveVaultFile ::
  "(jsstring \<Rightarrow> jsstring) \<Rightarrow> settings \<Rightarrow> TFile list \<Rightarrow> jsstring \<Rightarrow> jsstring option" where
  "resolveVaultFile toLowerCase st allFiles qmdPath =
     (let cleanPath = cleanFilePath st qmdPath;
          qmdFilename = normalizeForMatch toLowerCase (replaceMdSuffix (last (split SLASH cleanPath)))
      in if qmdFilename = [] then None
         else (case matchBasename toLowerCase qmdFilename allFiles of
                 Some found \<Rightarrow> Some found
               | None \<Rightarrow>
                   matchFullPath toLowerCase
                     (normalizeForMatch toLowerCase (replaceMdSuffix cleanPath)) allFiles))"

subsection \<open>The reconciler as the specification words it\<close>

fun collapseRuns :: "bool \<Rightarrow> jsstring \<Rightarrow> jsstring" where
  \<comment> \<open>Every run of whitespace becomes one hyphen; the flag says that the previous
      character was whitespace.\<close>
  "collapseRuns afterSpace [] = []"
| "collapseRuns afterSpace (c # cs) =
     (if isWhiteSpace c then (if afterSpace then [] else [HYPHEN]) @ collapseRuns True cs
      else c # collapseRuns False cs)"

definition normalizeSpec :: "(jsstring \<Rightarrow> jsstring) \<Rightarrow> jsstring \<Rightarrow> jsstring" where
  "normalizeSpec toLowerCase s = collapseRuns False (toLowerCase s)"

definition stripPrefixSpec :: "jsstring \<Rightarrow> jsstring \<Rightarrow> jsstring" where
  "stripPrefixSpec coll raw =
     (if prefix (js ''qmd://'' @ coll @ [SLASH]) raw
      then drop (length (js ''qmd://'' @ coll @ [SLASH])) raw
      else if prefix (coll @ [SLASH]) raw then drop (length (coll @ [SLASH])) raw
      else raw)"

definition stripMdSpec :: "jsstring \<Rightarrow> jsstring" where
  "stripMdSpec s = (if suffix (js ''.md'') s then take (length s - 3) s else s)"

definition bareNameSpec :: "jsstring \<Rightarrow> jsstring" where
  \<comment> \<open>What follows the last slash.\<close>
  "bareNameSpec s = rev (takeWhile (\<lambda>c. c \<noteq> SLASH) (rev s))"

text \<open>
  The steps of the reconciler as the specification lists them: the first entry whose
  normalized base name is the normalized bare name; failing that, the first entry whose
  normalized full path is the normalized cleaned reference; failing both, nothing.
\<close>

definition reconcileSpec ::
  "(jsstring \<Rightarrow> jsstring) \<Rightarrow> jsstring \<Rightarrow> TFile list \<Rightarrow> jsstring \<Rightarrow> jsstring option" where
  "reconcileSpec toLowerCase coll files raw =
     (let cleaned = stripPrefixSpec coll raw;
          bare = normalizeSpec toLowerCase (stripMdSpec (bareNameSpec cleaned));
          full = normalizeSpec toLowerCase (stripMdSpec cleaned)
      in (case find (\<lambda>f. normalizeSpec toLowerCase (basename f) = bare) files of
            Some f \<Rightarrow> Some (path f)
          | None \<Rightarrow>
              (case find (\<lambda>f. normalizeSpec toLowerCase (stripMdSpec (path f)) = full) files of
                 Some f \<Rightarrow> Some (path f)
               | None \<Rightarrow> None)))"

text \<open>
  The local file collection is what the host returns from \<^verbatim>\<open>getMarkdownFiles()\<close>: each
  entry is a markdown file of the vault, whose path is its folder, its base name and the
  extension \<^verbatim>\<open>.md\<close>, and whose base name is a file name: not empty and without a slash.
\<close>

definition isVaultEntry :: "TFile \<Rightarrow> bool" where
  "isVaultEntry f =
     (basename f \<noteq> [] \<and> SLASH \<notin> set (basename f) \<and>
      suffix (basename f @ js ''.md'') (path f))"

subsection \<open>Concrete inputs\<close>

definition asciiLowerCase :: "jsstring \<Rightarrow> jsstring" where
  \<comment> \<open>What \<^verbatim>\<open>toLowerCase\<close> does on a string of Basic Latin characters.\<close>
  "asciiLowerCase s = map (\<lambda>c. if 0x41 \<le> c \<and> c \<le> 0x5A then c + 0x20 else c) s"

definition defaultSettings :: settings where
  \<comment> \<open>The two fields of \<^verbatim>\<open>DEFAULT_SETTINGS\<close> the model reads.\<close>
  "defaultSettings = \<lparr>collection = js ''obsidian'', debugLogging = False\<rparr>"

definition duplicateDocs :: "TFile list" where
  "duplicateDocs =
     [\<lparr>path = js ''A/Doc.md'', basename = js ''Doc''\<rparr>,
      \<lparr>path = js ''B/Doc.md'', basename = js ''Doc''\<rparr>]"

definition planFiles :: "TFile list" where
  "planFiles =
     [\<lparr>path = js ''Projects/Q3 Plan.md'', basename = js ''Q3 Plan''\<rparr>,
      \<lparr>path = js ''My Doc.md'', basename = js ''My Doc''\<rparr>]"

section \<open>JSON values and \<^verbatim>\<open>JSON.parse\<close>\<close>

text \<open>
  \<^verbatim>\<open>JSON.parse\<close> belongs to the JavaScript runtime. Its result is modelled as a tree. A
  number keeps the text it was written with (the conversion to a floating point value
  is not modelled), and an object keeps its members in the order of the text, duplicate
  keys included: two texts that give the same tree give the same JavaScript value.
\<close>

datatype json =
    JNull
  | JBool bool
  | JNumber jsstring
  | JString jsstring
  | JArray "json list"
  | JObject "(jsstring \<times> json) list"

subsection \<open>Tokens\<close>

datatype token =
    TLBrace | TRBrace | TLBracket | TRBracket | TColon | TComma
  | TString jsstring
  | TWord jsstring

definition isJsonSpace :: "jschar \<Rightarrow> bool" where
  \<comment> \<open>The four whitespace characters of the JSON grammar.\<close>
  "isJsonSpace c = (c = 0x20 \<or> c = 0x09 \<or> c = 0x0A \<or> c = 0x0D)"

definition punctuation :: "jschar \<Rightarrow> token option" where
  "punctuation c =
     (if c = 0x7B then Some TLBrace else if c = 0x7D then Some TRBrace
      else if c = LBRACKET then Some TLBracket else if c = RBRACKET then Some TRBracket
      else if c = 0x3A then Some TColon else if c = 0x2C then Some TComma
      else None)"

definition escapeChar :: "jschar \<Rightarrow> jschar option" where
  \<comment> \<open>The character a two-character escape stands for.\<close>
  "escapeChar c =
     (if c = DQUOTE then Some DQUOTE else if c = BACKSLASH then Some BACKSLASH
      else if c = SLASH then Some SLASH
      else if c = 0x62 then Some 0x08 else if c = 0x66 then Some 0x0C
      else if c = 0x6E then Some 0x0A else if c = 0x72 then Some 0x0D
      else if c = 0x74 then Some 0x09
      else None)"

definition hexValue :: "jschar \<Rightarrow> nat option" where
  "hexValue c =
     (if 0x30 \<le> c \<and> c \<le> 0x39 then Some (unat c - 48)
      else if 0x61 \<le> c \<and> c \<le> 0x66 then Some (unat c - 87)
      else if 0x41 \<le> c \<and> c \<le> 0x46 then Some (unat c - 55)
      else None)"

definition codeUnit4 :: "nat list \<Rightarrow> jschar" where
  \<comment> \<open>The code unit four hexadecimal digits denote.\<close>
  "codeUnit4 ds = of_nat (foldl (\<lambda>a d. 16 * a + d) 0 ds)"

text \<open>
  The lexer reads one character at a time. It is between tokens, inside a word (a
  number or one of \<^verbatim>\<open>true\<close>, \<^verbatim>\<open>false\<close>, \<^verbatim>\<open>null\<close>), inside a string, right after a
  backslash in a string, or inside the four digits of a \<^verbatim>\<open>\u\<close> escape. With
  \<open>lenient\<close> false it is the lexer of \<^verbatim>\<open>JSON.parse\<close>, which refuses a raw character
  below 0x20 inside a string; with \<open>lenient\<close> true such a character stands for itself.
\<close>

datatype lexState =
    LOut
  | LWord jsstring
  | LStr jsstring
  | LEsc jsstring
  | LHex jsstring "nat list"

fun lexFrom :: "bool \<Rightarrow> lexState \<Rightarrow> jsstring \<Rightarrow> token list option" where
  "lexFrom lenient LOut [] = Some []"
| "lexFrom lenient (LWord w) [] = Some [TWord w]"
| "lexFrom lenient (LStr acc) [] = None"
| "lexFrom lenient (LEsc acc) [] = None"
| "lexFrom lenient (LHex acc ds) [] = None"
| "lexFrom lenient LOut (c # cs) =
     (if isJsonSpace c then lexFrom lenient LOut cs
      else if c = DQUOTE then lexFrom lenient (LStr []) cs
      else (case punctuation c of
              Some t \<Rightarrow> map_option (\<lambda>ts. t # ts) (lexFrom lenient LOut cs)
            | None \<Rightarrow> lexFrom lenient (LWord [c]) cs))"
| "lexFrom lenient (LWord w) (c # cs) =
     (if isJsonSpace c then map_option (\<lambda>ts. TWord w # ts) (lexFrom lenient LOut cs)
      else if c = DQUOTE then map_option (\<lambda>ts. TWord w # ts) (lexFrom lenient (LStr []) cs)
      else (case punctuation c of
              Some t \<Rightarrow> map_option (\<lambda>ts. TWord w # t # ts) (lexFrom lenient LOut cs)
            | None \<Rightarrow> lexFrom lenient (LWord (w @ [c])) cs))"
| "lexFrom lenient (LStr acc) (c # cs) =
     (if c = DQUOTE then map_option (\<lambda>ts. TString acc # ts) (lexFrom lenient LOut cs)
      else if c = BACKSLASH then lexFrom lenient (LEsc acc) cs
      else if c < 0x20 \<and> \<not> lenient then None
      else lexFrom lenient (LStr (acc @ [c])) cs)"
| "lexFrom lenient (LEsc acc) (c # cs) =
     (if c = 0x75 then lexFrom lenient (LHex acc []) cs
      else (case escapeChar c of
              Some d \<Rightarrow> lexFrom lenient (LStr (acc @ [d])) cs
            | None \<Rightarrow> None))"
| "lexFrom lenient (LHex acc ds) (c # cs) =
     (case hexValue c of
        None \<Rightarrow> None
      | Some d \<Rightarrow>
          if length ds = 3 then lexFrom lenient (LStr (acc @ [codeUnit4 (ds @ [d])])) cs
          else lexFrom lenient (LHex acc (ds @ [d])) cs)"

subsection \<open>Words: literal names and numbers\<close>

definition isDigit :: "jschar \<Rightarrow> bool" where
  "isDigit c = (0x30 \<le> c \<and> c \<le> 0x39)"

definition exponentOk :: "jsstring \<Rightarrow> bool" where
  \<comment> \<open>Nothing, or \<^verbatim>\<open>e\<close> or \<^verbatim>\<open>E\<close>, an optional sign and at least one digit.\<close>
  "exponentOk r =
     (case r of
        [] \<Rightarrow> True
      | c # r1 \<Rightarrow>
          (c = 0x65 \<or> c = 0x45) \<and>
          (let r2 = (case r1 of [] \<Rightarrow> [] | s # r' \<Rightarrow> if s = 0x2B \<or> s = 0x2D then r' else r1)
           in r2 \<noteq> [] \<and> list_all isDigit r2))"

definition fractionOk :: "jsstring \<Rightarrow> bool" where
  \<comment> \<open>An optional fraction (a dot and at least one digit), then the exponent.\<close>
  "fractionOk r =
     (case r of
        [] \<Rightarrow> True
      | c # r1 \<Rightarrow>
          if c = 0x2E then takeWhile isDigit r1 \<noteq> [] \<and> exponentOk (dropWhile isDigit r1)
          else exponentOk r)"

definition isJsonNumber :: "jsstring \<Rightarrow> bool" where
  "isJsonNumber w =
     (let w1 = (case w of [] \<Rightarrow> [] | c # r \<Rightarrow> if c = 0x2D then r else w);
          whole = takeWhile isDigit w1
      in whole \<noteq> [] \<and> (if take 1 whole = [0x30] then length whole = 1 else True) \<and>
         fractionOk (dropWhile isDigit w1))"

definition wordValue :: "jsstring \<Rightarrow> json option" where
  "wordValue w =
     (if w = js ''true'' then Some (JBool True)
      else if w = js ''false'' then Some (JBool False)
      else if w = js ''null'' then Some JNull
      else if isJsonNumber w then Some (JNumber w)
      else None)"

subsection \<open>The grammar\<close>

text \<open>
  The parser reads the tokens in one pass and keeps the arrays and objects that are
  still open on a stack; an open object waits with the key whose value is being read.
\<close>

datatype frame =
    InArray "json list"
  | InObject "(jsstring \<times> json) list" jsstring

datatype parseState =
    PValue "frame list"
  | PArrayStart "frame list"
  | PObjectStart "frame list"
  | PKey "frame list" "(jsstring \<times> json) list"
  | PColon "frame list" "(jsstring \<times> json) list" jsstring
  | PArrayNext "frame list" "json list"
  | PObjectNext "frame list" "(jsstring \<times> json) list"
  | PDone json

fun afterValue :: "frame list \<Rightarrow> json \<Rightarrow> parseState" where
  "afterValue [] v = PDone v"
| "afterValue (InArray elems # stack) v = PArrayNext stack (elems @ [v])"
| "afterValue (InObject members key # stack) v = PObjectNext stack (members @ [(key, v)])"

fun startValue :: "frame list \<Rightarrow> token \<Rightarrow> parseState option" where
  "startValue stack (TString s) = Some (afterValue stack (JString s))"
| "startValue stack (TWord w) = map_option (afterValue stack) (wordValue w)"
| "startValue stack TLBracket = Some (PArrayStart stack)"
| "startValue stack TLBrace = Some (PObjectStart stack)"
| "startValue stack TRBrace = None"
| "startValue stack TRBracket = None"
| "startValue stack TColon = None"
| "startValue stack TComma = None"

fun parseStep :: "parseState \<Rightarrow> token \<Rightarrow> parseState option" where
  "parseStep (PValue stack) t = startValue stack t"
| "parseStep (PArrayStart stack) t =
     (if t = TRBracket then Some (afterValue stack (JArray []))
      else startValue (InArray [] # stack) t)"
| "parseStep (PObjectStart stack) t =
     (case t of
        TRBrace \<Rightarrow> Some (afterValue stack (JObject []))
      | TString k \<Rightarrow> Some (PColon stack [] k)
      | _ \<Rightarrow> None)"
| "parseStep (PKey stack members) t =
     (case t of TString k \<Rightarrow> Some (PColon stack members k) | _ \<Rightarrow> None)"
| "parseStep (PColon stack members k) t =
     (if t = TColon then Some (PValue (InObject members k # stack)) else None)"
| "parseStep (PArrayNext stack elems) t =
     (case t of
        TComma \<Rightarrow> Some (PValue (InArray elems # stack))
      | TRBracket \<Rightarrow> Some (afterValue stack (JArray elems))
      | _ \<Rightarrow> None)"
| "parseStep (PObjectNext stack members) t =
     (case t of
        TComma \<Rightarrow> Some (PKey stack members)
      | TRBrace \<Rightarrow> Some (afterValue stack (JObject members))
      | _ \<Rightarrow> None)"
| "parseStep (PDone v) t = None"

fun parseTokens :: "parseState \<Rightarrow> token list \<Rightarrow> json option" where
  "parseTokens st [] = (case st of PDone v \<Rightarrow> Some v | _ \<Rightarrow> None)"
| "parseTokens st (t # ts) =
     (case parseStep st t of None \<Rightarrow> None | Some st' \<Rightarrow> parseTokens st' ts)"

definition parseWith :: "bool \<Rightarrow> jsstring \<Rightarrow> json option" where
  "parseWith lenient text =
     (case lexFrom lenient LOut text of
        None \<Rightarrow> None
      | Some ts \<Rightarrow> parseTokens (PValue []) ts)"

definition JSON_parse :: "jsstring \<Rightarrow> json option" where
  \<comment> \<open>\<^verbatim>\<open>JSON.parse(text)\<close>; \<open>None\<close> is the SyntaxError it throws.\<close>
  "JSON_parse text = parseWith False text"

definition lenientParse :: "jsstring \<Rightarrow> json option" where
  \<comment> \<open>The value of a text that is JSON but for raw control characters inside its
      strings, each read as the character it is.\<close>
  "lenientParse text = parseWith True text"

section \<open>The search session (\<^verbatim>\<open>QmdSearchModal\<close>)\<close>

subsection \<open>String methods the handlers call\<close>

fun indexOf :: "jsstring \<Rightarrow> jschar \<Rightarrow> int" where
  \<comment> \<open>\<^verbatim>\<open>s.indexOf(c)\<close>: the first position of the character, or -1.\<close>
  "indexOf [] c = -1"
| "indexOf (x # xs) c =
     (if x = c then 0 else (let r = indexOf xs c in if r = -1 then -1 else r + 1))"

definition lastIndexOf :: "jsstring \<Rightarrow> jschar \<Rightarrow> int" where
  \<comment> \<open>\<^verbatim>\<open>s.lastIndexOf(c)\<close>: the last position of the character, or -1.\<close>
  "lastIndexOf s c =
     (let r = indexOf (rev s) c in if r = -1 then -1 else int (length s) - 1 - r)"

definition slice :: "jsstring \<Rightarrow> int \<Rightarrow> int \<Rightarrow> jsstring" where
  \<comment> \<open>\<^verbatim>\<open>s.slice(start, end)\<close>: a negative index counts from the end, both are clamped to
      the string, and the result is empty when the start is not before the end.\<close>
  "slice s start end =
     (let len = int (length s);
          from = (if start < 0 then max (len + start) 0 else min start len);
          to = (if end < 0 then max (len + end) 0 else min end len)
      in take (nat (to - from)) (drop (nat from) s))"

definition trim :: "jsstring \<Rightarrow> jsstring" where
  "trim s = rev (dropWhile isWhiteSpace (rev (dropWhile isWhiteSpace s)))"

fun digitsOf :: "nat \<Rightarrow> jsstring" where
  "digitsOf n = (if n < 10 then [of_nat (48 + n)] else digitsOf (n div 10) @ [of_nat (48 + n mod 10)])"

declare digitsOf.simps [simp del]

definition codeToString :: "int option \<Rightarrow> jsstring" where
  \<comment> \<open>An exit code in a template literal; \<open>None\<close> is \<^verbatim>\<open>null\<close>.\<close>
  "codeToString code =
     (case code of
        None \<Rightarrow> js ''null''
      | Some n \<Rightarrow> if n < 0 then HYPHEN # digitsOf (nat (- n)) else digitsOf (nat n))"

subsection \<open>The status region\<close>

datatype statusState = StateSearching | StateEmpty | StateError

datatype statusDisplay =
    DisplayNone
  | ShowSearching
  | ShowNoResults
  | ShowError jsstring

definition showStatus :: "statusState \<Rightarrow> jsstring option \<Rightarrow> statusDisplay" where
  \<comment> \<open>What the status region shows after \<^verbatim>\<open>showStatus(state, errorMsg)\<close>; an absent or
      empty message becomes the default text.\<close>
  "showStatus state errorMsg =
     (case state of
        StateSearching \<Rightarrow> ShowSearching
      | StateEmpty \<Rightarrow> ShowNoResults
      | StateError \<Rightarrow>
          ShowError (case errorMsg of
                       None \<Rightarrow> js ''An error occurred.''
                     | Some m \<Rightarrow> if m = [] then js ''An error occurred.'' else m))"

subsection \<open>What the runtime and the host decide\<close>

text \<open>
  Three things the handlers depend on are not code of the plugin and are parameters of
  the model: \<^verbatim>\<open>JSON.parse\<close> (\<open>None\<close> when it throws), whether a parsed number is
  truthy (it is not when its floating point value is zero), and whether the host's
  \<^verbatim>\<open>setText\<close> throws when it is given a value that is not a string. The other calls
  into the host (creating an element, setting a text that is a string, registering a
  listener) are taken not to throw.
\<close>

record runtime =
  parseJSON :: "jsstring \<Rightarrow> json option"
  numberIsTruthy :: "jsstring \<Rightarrow> bool"
  setTextThrows :: "json \<Rightarrow> bool"

subsection \<open>Rendering the rows (\<^verbatim>\<open>renderResults\<close>, main.ts 307-343)\<close>

text \<open>
  The items are whatever \<^verbatim>\<open>JSON.parse\<close> returned: the annotation \<^verbatim>\<open>QmdResult[]\<close> checks
  nothing at run time. Reading a property of an item gives a value or \<^verbatim>\<open>undefined\<close>.
  The five properties read (\<^verbatim>\<open>title\<close>, \<^verbatim>\<open>file\<close>, \<^verbatim>\<open>score\<close>, \<^verbatim>\<open>snippet\<close>, \<^verbatim>\<open>context\<close>) are
  on no prototype, so only an object has them, and of two members with the same key the
  later one counts.
\<close>

datatype jsval = Undefined | Value json

fun getField :: "json \<Rightarrow> jsstring \<Rightarrow> jsval" where
  "getField (JObject members) key =
     (case map_of (rev members) key of None \<Rightarrow> Undefined | Some v \<Rightarrow> Value v)"
| "getField JNull key = Undefined"
| "getField (JBool b) key = Undefined"
| "getField (JNumber n) key = Undefined"
| "getField (JString s) key = Undefined"
| "getField (JArray xs) key = Undefined"

fun toBoolean :: "runtime \<Rightarrow> jsval \<Rightarrow> bool" where
  "toBoolean rt Undefined = False"
| "toBoolean rt (Value JNull) = False"
| "toBoolean rt (Value (JBool b)) = b"
| "toBoolean rt (Value (JNumber n)) = numberIsTruthy rt n"
| "toBoolean rt (Value (JString s)) = (s \<noteq> [])"
| "toBoolean rt (Value (JArray xs)) = True"
| "toBoolean rt (Value (JObject members)) = True"

fun isString :: "jsval \<Rightarrow> bool" where
  "isString (Value (JString s)) = True"
| "isString v = False"

fun toPrimitiveThrows :: "json \<Rightarrow> bool" where
  \<comment> \<open>Whether converting the value to a number throws: an object with a member
      \<^verbatim>\<open>toString\<close> has no callable conversion left, and an array converts its elements.\<close>
  "toPrimitiveThrows (JObject members) = (js ''toString'' \<in> set (map fst members))"
| "toPrimitiveThrows (JArray xs) = list_ex toPrimitiveThrows xs"
| "toPrimitiveThrows JNull = False"
| "toPrimitiveThrows (JBool b) = False"
| "toPrimitiveThrows (JNumber n) = False"
| "toPrimitiveThrows (JString s) = False"

definition snippetSource :: "runtime \<Rightarrow> json \<Rightarrow> jsval" where
  \<comment> \<open>\<^verbatim>\<open>item.snippet || item.context || ""\<close>\<close>
  "snippetSource rt item =
     (if toBoolean rt (getField item (js ''snippet'')) then getField item (js ''snippet'')
      else if toBoolean rt (getField item (js ''context'')) then getField item (js ''context'')
      else Value (JString []))"

definition renderRow :: "runtime \<Rightarrow> json \<Rightarrow> bool" where
  \<comment> \<open>One iteration of the loop of \<^verbatim>\<open>renderResults\<close>: true when the row is rendered,
      false when a TypeError is thrown. In the order of the code: \<^verbatim>\<open>item.title\<close> of
      \<^verbatim>\<open>null\<close>; \<^verbatim>\<open>fileDisplayName(item.file)\<close> for a falsy title and
      \<^verbatim>\<open>setText\<close> for a truthy one; \<^verbatim>\<open>item.score * 100\<close>; \<^verbatim>\<open>cleanFilePath(item.file)\<close>,
      which calls \<^verbatim>\<open>startsWith\<close>; \<^verbatim>\<open>cleanSnippet\<close>, which calls \<^verbatim>\<open>replace\<close>. The texts
      put into the row are not modelled.\<close>
  "renderRow rt item =
     (if item = JNull then False
      else if \<not> toBoolean rt (getField item (js ''title'')) \<and>
              \<not> isString (getField item (js ''file'')) then False
      else if toBoolean rt (getField item (js ''title'')) \<and>
              \<not> isString (getField item (js ''title'')) \<and>
              (case getField item (js ''title'') of
                 Undefined \<Rightarrow> False | Value t \<Rightarrow> setTextThrows rt t) then False
      else if (case getField item (js ''score'') of
                 Undefined \<Rightarrow> False | Value sc \<Rightarrow> toPrimitiveThrows sc) then False
      else if \<not> isString (getField item (js ''file'')) then False
      else isString (snippetSource rt item))"

fun renderLoop :: "runtime \<Rightarrow> json list \<Rightarrow> nat \<Rightarrow> nat \<times> bool" where
  \<comment> \<open>The rows completed, and whether the loop ended by an exception.\<close>
  "renderLoop rt [] i = (i, False)"
| "renderLoop rt (item # rest) i =
     (if renderRow rt item then renderLoop rt rest (i + 1) else (i, True))"

definition renderResults :: "runtime \<Rightarrow> json list \<Rightarrow> nat \<times> bool" where
  "renderResults rt items = renderLoop rt items 0"

subsection \<open>The state of a session\<close>

text \<open>
  The fields of the modal that hold its results, its selection and its status, and the
  objects it creates. Every call of
  \<^verbatim>\<open>runSearch\<close> that gets past its guard creates one \<^verbatim>\<open>AbortController\<close> and spawns one
  child process, so both are numbered by the order of creation: \<open>aborted ! k\<close> is
  \<^verbatim>\<open>signal.aborted\<close> of the \<open>k\<close>-th controller, \<open>killed ! k\<close> says that \<^verbatim>\<open>kill()\<close> was
  called on the \<open>k\<close>-th child. The field \<open>abortController\<close> is a reference: the
  number of the controller it points to, or \<open>None\<close> for \<^verbatim>\<open>null\<close>. \<open>rows\<close> counts the
  rows of the results region that carry their listeners.
\<close>

record session =
  results :: "json list"
  selectedIndex :: int
  abortController :: "nat option"
  aborted :: "bool list"
  killed :: "bool list"
  statusEl :: statusDisplay
  rows :: nat

definition newSession :: session where
  "newSession =
     \<lparr>results = [], selectedIndex = -1, abortController = None, aborted = [], killed = [],
      statusEl = DisplayNone, rows = 0\<rparr>"

definition abort :: "nat \<Rightarrow> session \<Rightarrow> session" where
  \<comment> \<open>\<^verbatim>\<open>controller.abort()\<close>: the first call sets the flag and runs the listener that
      \<^verbatim>\<open>runSearch\<close> registered, which kills the child of the same call.\<close>
  "abort k s =
     (if k < length (aborted s) \<and> \<not> aborted s ! k
      then s\<lparr>aborted := (aborted s)[k := True], killed := (killed s)[k := True]\<rparr>
      else s)"

definition abortCurrent :: "session \<Rightarrow> session" where
  \<comment> \<open>\<^verbatim>\<open>this.abortController?.abort()\<close>\<close>
  "abortCurrent s = (case abortController s of None \<Rightarrow> s | Some k \<Rightarrow> abort k s)"

definition currentAborted :: "session \<Rightarrow> bool" where
  \<comment> \<open>\<^verbatim>\<open>this.abortController?.signal.aborted\<close>, read when a handler runs: it looks at
      the controller the field points to at that moment.\<close>
  "currentAborted s =
     (case abortController s of
        None \<Rightarrow> False
      | Some k \<Rightarrow> k < length (aborted s) \<and> aborted s ! k)"

definition runSearch :: "jsstring \<Rightarrow> session \<Rightarrow> session" where
  \<comment> \<open>main.ts 170-283. The new controller and the new child get the next number; the
      environment and the arguments of the child are not modelled. \<^verbatim>\<open>spawn\<close> is taken to
      return a child: a query or a setting with a NUL character, for which it throws
      before any listener is registered, is outside the model.\<close>
  "runSearch query s =
     (if query = [] then s
      else
        (let s1 = abortCurrent s in
         s1\<lparr>abortController := Some (length (aborted s1)),
            aborted := aborted s1 @ [False],
            killed := killed s1 @ [False],
            results := [],
            selectedIndex := -1,
            rows := 0,
            statusEl := showStatus StateSearching None\<rparr>))"

definition parseFailureMessage :: "settings \<Rightarrow> jsstring" where
  "parseFailureMessage st =
     js ''Failed to parse QMD output.'' @
     (if debugLogging st then js '' Check console for details.''
      else js '' Enable debug logging in settings for details.'')"

definition jsonStr :: "jsstring \<Rightarrow> jsstring" where
  \<comment> \<open>\<^verbatim>\<open>stdout.slice(jsonStart, jsonEnd + 1)\<close>\<close>
  "jsonStr stdout = slice stdout (indexOf stdout LBRACKET) (lastIndexOf stdout RBRACKET + 1)"

definition parseAndRender :: "runtime \<Rightarrow> settings \<Rightarrow> jsstring \<Rightarrow> session \<Rightarrow> session" where
  \<comment> \<open>The \<^verbatim>\<open>try\<close> block of the close handler with its \<^verbatim>\<open>catch\<close> (main.ts 244-277). An
      exception of \<^verbatim>\<open>JSON.parse\<close> leaves the results as they were; an exception of
      \<^verbatim>\<open>renderResults\<close> comes after \<^verbatim>\<open>this.results = items\<close>. Both end in the same
      \<^verbatim>\<open>catch\<close>.\<close>
  "parseAndRender rt st stdout s =
     (let jsonStart = indexOf stdout LBRACKET;
          jsonEnd = lastIndexOf stdout RBRACKET
      in if jsonStart = -1 \<or> jsonEnd = -1 then s\<lparr>statusEl := showStatus StateEmpty None\<rparr>
         else
           (case parseJSON rt (sanitizeJson (jsonStr stdout)) of
              None \<Rightarrow> s\<lparr>statusEl := showStatus StateError (Some (parseFailureMessage st))\<rparr>
            | Some parsed \<Rightarrow>
                (let items = (case parsed of JArray xs \<Rightarrow> xs | _ \<Rightarrow> []) in
                 if items = [] then s\<lparr>results := items, statusEl := showStatus StateEmpty None\<rparr>
                 else
                   (case renderResults rt items of
                      (n, thrown) \<Rightarrow>
                        if thrown
                        then s\<lparr>results := items, rows := n,
                               statusEl := showStatus StateError (Some (parseFailureMessage st))\<rparr>
                        else s\<lparr>results := items, rows := n, statusEl := DisplayNone\<rparr>))))"

definition onChildClose ::
  "runtime \<Rightarrow> settings \<Rightarrow> int option \<Rightarrow> jsstring \<Rightarrow> jsstring \<Rightarrow> session \<Rightarrow> session" where
  \<comment> \<open>The listener of \<^verbatim>\<open>close\<close> (main.ts 225-278), for the exit code and the whole output
      of the child that closed. Nothing in it says which child that is.\<close>
  "onChildClose rt st code stdout stderr s =
     (if currentAborted s then s
      else if code \<noteq> Some 0 \<and> code \<noteq> None then
        s\<lparr>statusEl :=
            showStatus StateError
              (Some (if trim stderr \<noteq> [] then trim stderr
                     else js ''QMD exited with code '' @ codeToString code))\<rparr>
      else parseAndRender rt st stdout s)"

definition onChildError :: "jsstring \<Rightarrow> session \<Rightarrow> session" where
  \<comment> \<open>The listener of \<^verbatim>\<open>error\<close> (main.ts 217-223), for \<^verbatim>\<open>err.message\<close>.\<close>
  "onChildError message s =
     (if currentAborted s then s else s\<lparr>statusEl := showStatus StateError (Some message)\<rparr>)"

definition moveSelection :: "int \<Rightarrow> session \<Rightarrow> session" where
  \<comment> \<open>main.ts 347-360; the highlighting and the scrolling change no field.\<close>
  "moveSelection delta s =
     (if length (results s) = 0 then s
      else if selectedIndex s < 0 then
        s\<lparr>selectedIndex := (if delta > 0 then 0 else int (length (results s)) - 1)\<rparr>
      else
        (let i1 = selectedIndex s + delta;
             i2 = (if i1 < 0 then int (length (results s)) - 1 else i1);
             i3 = (if i2 \<ge> int (length (results s)) then 0 else i2)
         in s\<lparr>selectedIndex := i3\<rparr>))"

definition onMouseEnter :: "nat \<Rightarrow> session \<Rightarrow> session" where
  \<comment> \<open>The listener of row \<open>i\<close> (main.ts 338-341); only a rendered row can fire it.\<close>
  "onMouseEnter i s = (if i < rows s then s\<lparr>selectedIndex := int i\<rparr> else s)"

definition resetSelection :: "session \<Rightarrow> session" where
  \<comment> \<open>The listeners of \<^verbatim>\<open>focus\<close> and \<^verbatim>\<open>input\<close> (main.ts 127-134).\<close>
  "resetSelection s = s\<lparr>selectedIndex := -1\<rparr>"

definition onClose :: "session \<Rightarrow> session" where
  \<comment> \<open>main.ts 163-166: the current controller is aborted and the content is emptied.\<close>
  "onClose s = (abortCurrent s)\<lparr>rows := 0\<rparr>"

definition openResultThrows :: "json \<Rightarrow> bool" where
  \<comment> \<open>\<^verbatim>\<open>openResult(item)\<close> starts with \<^verbatim>\<open>resolveVaultFile(item.file)\<close>: a TypeError for
      \<^verbatim>\<open>null\<close> and for a file that is not a string. Which document it opens is not
      modelled.\<close>
  "openResultThrows item =
     (if item = JNull then True else \<not> isString (getField item (js ''file'')))"

definition onEnter :: "jsstring \<Rightarrow> session \<Rightarrow> session" where
  \<comment> \<open>The Enter branch of the \<^verbatim>\<open>keydown\<close> listener (main.ts 137-143), for the trimmed
      text of the input. With a selection it opens the selected result, which ends by
      closing the modal; an exception on the way leaves the session as it is.\<close>
  "onEnter query s =
     (if selectedIndex s \<ge> 0 \<and> length (results s) > 0 then
        (if selectedIndex s < int (length (results s)) \<and>
            \<not> openResultThrows (results s ! nat (selectedIndex s))
         then onClose s else s)
      else runSearch query s)"

text \<open>
  What can happen to an open session: the keys of the \<^verbatim>\<open>keydown\<close> listener (main.ts
  136-158), the listeners of the input and of the rows, the events of a child process
  and the closing of the modal. A child event carries what the child delivers; the
  handlers do not look at which child it is. A rendered row has an item that was
  rendered without an exception, so that a click on it opens the item and closes the
  modal. What the handlers write to the console is not modelled.
\<close>

datatype event =
    Enter jsstring
  | ArrowDown
  | ArrowUp
  | Escape
  | FocusOrInput
  | MouseEnter nat
  | Click nat
  | ChildClose nat "int option" jsstring jsstring
  | ChildError nat jsstring
  | CloseModal

fun step :: "runtime \<Rightarrow> settings \<Rightarrow> session \<Rightarrow> event \<Rightarrow> session" where
  "step rt st s (Enter query) = onEnter query s"
| "step rt st s ArrowDown = moveSelection 1 s"
| "step rt st s ArrowUp = moveSelection (-1) s"
| "step rt st s Escape = (if selectedIndex s \<ge> 0 then resetSelection s else s)"
| "step rt st s FocusOrInput = resetSelection s"
| "step rt st s (MouseEnter i) = onMouseEnter i s"
| "step rt st s (Click i) = (if i < rows s then onClose s else s)"
| "step rt st s (ChildClose k code stdout stderr) = onChildClose rt st code stdout stderr s"
| "step rt st s (ChildError k message) = onChildError message s"
| "step rt st s CloseModal = onClose s"

definition run :: "runtime \<Rightarrow> settings \<Rightarrow> event list \<Rightarrow> session" where
  "run rt st events = foldl (step rt st) newSession events"

subsection \<open>Sessions without stale child events\<close>

definition selectionValid :: "session \<Rightarrow> bool" where
  \<comment> \<open>The invariant of the data model, with the bound on the rendered rows that keeps
      the row listeners inside it.\<close>
  "selectionValid s =
     ((selectedIndex s = -1 \<or>
       (0 \<le> selectedIndex s \<and> selectedIndex s < int (length (results s)))) \<and>
      rows s \<le> length (results s))"

definition searching :: "session \<Rightarrow> bool" where
  \<comment> \<open>What \<^verbatim>\<open>runSearch\<close> leaves behind: no result, no selection, no row.\<close>
  "searching s = (selectedIndex s = -1 \<and> results s = [] \<and> rows s = 0)"

fun staleFree :: "runtime \<Rightarrow> settings \<Rightarrow> bool \<Rightarrow> session \<Rightarrow> event list \<Rightarrow> bool" where
  \<comment> \<open>\<open>staleFree rt st waiting s events\<close>: every close among the events comes from the
      child of the controller that is current at that moment, while the session still
      waits for it (\<open>waiting\<close>: a search was started and its child has not closed).\<close>
  "staleFree rt st waiting s [] = True"
| "staleFree rt st waiting s (e # es) =
     (case e of
        ChildClose k code stdout stderr \<Rightarrow>
          waiting \<and> abortController s = Some k \<and> staleFree rt st False (step rt st s e) es
      | Enter query \<Rightarrow>
          staleFree rt st
            (if selectedIndex s \<ge> 0 \<and> length (results s) > 0 then waiting
             else if query = [] then waiting else True)
            (step rt st s e) es
      | _ \<Rightarrow> staleFree rt st waiting (step rt st s e) es)"

subsection \<open>The embedded array as the specification words it\<close>

definition bracketSpan :: "jsstring \<Rightarrow> jsstring" where
  \<comment> \<open>The text from the first \<^verbatim>\<open>[\<close> to the last \<^verbatim>\<open>]\<close>, both included; it is empty when
      the last \<^verbatim>\<open>]\<close> stands before the first \<^verbatim>\<open>[\<close>.\<close>
  "bracketSpan out =
     (let first = length (takeWhile (\<lambda>c. c \<noteq> LBRACKET) out);
          afterLast = length out - length (takeWhile (\<lambda>c. c \<noteq> RBRACKET) (rev out))
      in take (afterLast - first) (drop first out))"

subsection \<open>Concrete inputs\<close>

definition referenceRuntime :: runtime where
  \<comment> \<open>The parser of the model; a number is taken as truthy when one of its digits is not
      0, which is right but for a number so small that its floating point value is
      zero, and \<^verbatim>\<open>setText\<close> as accepting every value. The concrete inputs below have no
      number and no title that is not a string where it matters.\<close>
  "referenceRuntime =
     \<lparr>parseJSON = JSON_parse,
      numberIsTruthy = (\<lambda>n. list_ex (\<lambda>c. 0x31 \<le> c \<and> c \<le> 0x39) (takeWhile (\<lambda>c. c \<noteq> 0x65 \<and> c \<noteq> 0x45) n)),
      setTextThrows = (\<lambda>v. False)\<rparr>"

definition resultObject :: "string \<Rightarrow> jsstring" where
  \<comment> \<open>The text of a result object with the given file, \<^verbatim>\<open>{"file":"..."}\<close>.\<close>
  "resultObject file =
     [0x7B, DQUOTE] @ js ''file'' @ [DQUOTE, 0x3A, DQUOTE] @ js file @ [DQUOTE, 0x7D]"

definition oneResult :: jsstring where
  "oneResult = [LBRACKET] @ resultObject ''new.md'' @ [RBRACKET]"

definition threeResults :: jsstring where
  "threeResults =
     [LBRACKET] @ resultObject ''a.md'' @ [0x2C] @ resultObject ''b.md'' @ [0x2C] @
     resultObject ''c.md'' @ [RBRACKET]"

definition nonArrayRuntime :: runtime where
  \<comment> \<open>A runtime whose parser returns \<^verbatim>\<open>null\<close> for every text: no text that starts with
      a bracket parses to a value that is not an array, so the branch of the handler for
      such a value is only reached with a parser that is not the real one.\<close>
  "nonArrayRuntime = referenceRuntime\<lparr>parseJSON := (\<lambda>t. Some JNull)\<rparr>"

definition dirtyOutput :: jsstring where
  \<comment> \<open>A progress line, then the array of one string with a raw line feed and a raw
      tab in it, then a line feed.\<close>
  "dirtyOutput =
     js ''Searching...'' @ [0x0A, LBRACKET, DQUOTE, 0x61, 0x0A, 0x62, 0x09, DQUOTE, RBRACKET, 0x0A]"

definition dirtyOutputEscaped :: jsstring where
  \<comment> \<open>The array of \<open>dirtyOutput\<close> escaped by hand, the line feed as a \<^verbatim>\<open>\u\<close> escape with
      an upper case digit and the tab as its short escape.\<close>
  "dirtyOutputEscaped =
     [LBRACKET, DQUOTE, 0x61, BACKSLASH, 0x75, 0x30, 0x30, 0x30, 0x41, 0x62,
      BACKSLASH, 0x74, DQUOTE, RBRACKET]"

definition supersededTrace :: "event list" where
  \<comment> \<open>A search is submitted, and a second one while the first is in flight.\<close>
  "supersededTrace = [Enter (js ''first''), Enter (js ''second'')]"

definition threeShown :: session where
  \<comment> \<open>A session whose only search has ended with three results.\<close>
  "threeShown =
     run referenceRuntime defaultSettings
       [Enter (js ''plan''), ChildClose 0 (Some 0) threeResults []]"

section \<open>Manually escaped equivalents\<close>

text \<open>
  A JSON escape sequence and the character it denotes: a backslash and one of the
  letters of \<open>escapeChar\<close>, or a backslash, the letter u and four hexadecimal digits
  of either case.
\<close>

fun decodeEscape :: "jsstring \<Rightarrow> jschar option" where
  "decodeEscape [b, x] = (if b = BACKSLASH \<and> x \<noteq> 0x75 then escapeChar x else None)"
| "decodeEscape [b, u, h1, h2, h3, h4] =
     (if b = BACKSLASH \<and> u = 0x75 then
        (case (hexValue h1, hexValue h2, hexValue h3, hexValue h4) of
           (Some d1, Some d2, Some d3, Some d4) \<Rightarrow> Some (codeUnit4 [d1, d2, d3, d4])
         | _ \<Rightarrow> None)
      else None)"
| "decodeEscape e = None"

text \<open>
  \<open>manuallyEscaped p src escaped\<close>: from the position \<open>p\<close> on, \<open>escaped\<close> is
  \<open>src\<close> with every raw control character inside a string replaced by an escape
  sequence of two or six characters that denotes it, and nothing else changed.
\<close>

fun manuallyEscaped :: "scanPos \<Rightarrow> jsstring \<Rightarrow> jsstring \<Rightarrow> bool" where
  "manuallyEscaped p [] escaped = (escaped = [])"
| "manuallyEscaped p (ch # rest) escaped =
     (if p = Inside \<and> ch < 0x20 then
        (decodeEscape (take 2 escaped) = Some ch \<and>
         manuallyEscaped Inside rest (drop 2 escaped)) \<or>
        (decodeEscape (take 6 escaped) = Some ch \<and>
         manuallyEscaped Inside rest (drop 6 escaped))
      else
        (case escaped of
           [] \<Rightarrow> False
         | e # others \<Rightarrow> e = ch \<and> manuallyEscaped (specNext p ch) rest others))"

fun posOf :: "lexState \<Rightarrow> scanPos" where
  \<comment> \<open>Where the scan of the sanitizer stands when the lexer is in a given state.\<close>
  "posOf LOut = Outside"
| "posOf (LWord w) = Outside"
| "posOf (LStr acc) = Inside"
| "posOf (LEsc acc) = AfterBackslash"
| "posOf (LHex acc ds) = Inside"

section \<open>Properties of the sanitizer\<close>

lemma toString16_small: "n < 16 \<Longrightarrow> toString16 n = [hexDigit n]"
  by (simp add: toString16.simps)

lemma toString16_two:
  assumes "16 \<le> n" "n < 256"
  shows "toString16 n = [hexDigit (n div 16), hexDigit (n mod 16)]"
proof -
  from assms have "n div 16 < 16" by simp
  then have "toString16 (n div 16) = [hexDigit (n div 16)]" by (rule toString16_small)
  with assms show ?thesis by (simp add: toString16.simps [of n])
qed

lemma hexDigit_0: "hexDigit 0 = 0x30"
  by (simp add: hexDigit_def)

lemma padded_hex_control:
  assumes "n < 32"
  shows "padStart 4 0x30 (toString16 n) =
         [hexDigit (n div 4096), hexDigit (n div 256 mod 16),
          hexDigit (n div 16 mod 16), hexDigit (n mod 16)]"
proof (cases "n < 16")
  case True
  then show ?thesis
    by (simp add: toString16_small padStart_def hexDigit_0 numeral_3_eq_3)
next
  case False
  with assms have "toString16 n = [hexDigit (n div 16), hexDigit (n mod 16)]"
    by (intro toString16_two) simp_all
  moreover from assms have "n div 4096 = 0" "n div 256 = 0" "n div 16 mod 16 = n div 16"
    by simp_all
  ultimately show ?thesis
    by (simp add: padStart_def hexDigit_0 numeral_2_eq_2)
qed

lemma controlEscape_specEmit:
  assumes "charCodeAt0 ch < 0x20"
  shows "controlEscape ch (charCodeAt0 ch) = specEmit Inside ch"
proof -
  from assms have small: "unat ch < 32" by (simp add: charCodeAt0_def)
  then have lt: "ch < 0x20" by (simp add: word_less_nat_alt)
  show ?thesis
    using lt padded_hex_control [OF small]
    by (simp add: controlEscape_def charCodeAt0_def unicodeEscape4_def)
qed

lemma charCode_not_small:
  "\<not> charCodeAt0 ch < 0x20 \<Longrightarrow> \<not> ch < 0x20 \<and> ch \<noteq> 0x0A \<and> ch \<noteq> 0x0D \<and> ch \<noteq> 0x09"
  by (auto simp add: charCodeAt0_def word_less_nat_alt)

lemma sanitizeLoop_spec:
  "concat (sanitizeLoop raw i inString out) =
   concat out @ sanitizeSpec (if inString then Inside else Outside) (drop i raw)"
proof (induction raw i inString out rule: sanitizeLoop.induct)
  case (1 raw i inString out)
  show ?case
  proof (cases "i < length raw")
    case False
    then show ?thesis by (simp add: sanitizeLoop.simps [of raw i])
  next
    case inb: True
    then have here: "drop i raw = raw ! i # drop (Suc i) raw"
      by (simp add: Cons_nth_drop_Suc)
    show ?thesis
    proof (cases inString)
      case False
      with inb here "1.IH"(5) show ?thesis
        by (cases "raw ! i = DQUOTE") (simp_all add: sanitizeLoop.simps [of raw i])
    next
      case ins: True
      show ?thesis
      proof (cases "raw ! i = BACKSLASH")
        case bs: True
        show ?thesis
        proof (cases "i + 1 < length raw")
          case True
          then have "drop (Suc i) raw = raw ! (Suc i) # drop (Suc (Suc i)) raw"
            by (simp add: Cons_nth_drop_Suc)
          with inb ins bs here True "1.IH"(1) show ?thesis
            by (simp add: sanitizeLoop.simps [of raw i])
        next
          case False
          with inb have "drop (Suc i) raw = []" "drop (Suc (Suc i)) raw = []" by simp_all
          with inb ins bs here False "1.IH"(1) show ?thesis
            by (simp add: sanitizeLoop.simps [of raw i])
        qed
      next
        case nbs: False
        show ?thesis
        proof (cases "raw ! i = DQUOTE")
          case True
          with inb ins nbs here "1.IH"(2) show ?thesis
            by (simp add: sanitizeLoop.simps [of raw i])
        next
          case nq: False
          show ?thesis
          proof (cases "charCodeAt0 (raw ! i) < 0x20")
            case True
            with inb ins nbs nq here "1.IH"(3) controlEscape_specEmit [OF True]
            show ?thesis
              by (simp add: sanitizeLoop.simps [of raw i])
          next
            case False
            with inb ins nbs nq here "1.IH"(4) charCode_not_small [OF False]
            show ?thesis
              by (simp add: sanitizeLoop.simps [of raw i])
          qed
        qed
      qed
    qed
  qed
qed

lemma sanitizeJson_spec: "sanitizeJson raw = sanitizeSpec Outside raw"
  by (simp add: sanitizeJson_def sanitizeLoop_spec)

text \<open>
  Claim C3. For every input string the sanitizer is the character-by-character scan of
  the specification: it tracks whether the position is inside a quoted string; inside a
  string a raw newline, carriage return and tab become their short escapes, every other
  character below 0x20 becomes a backslash, the letter u and exactly four hexadecimal
  digits, the character right after a backslash is copied without inspection, and every
  other character is copied; outside a string every character is copied.
\<close>

theorem sanitizeJson_is_specified_scan:
  "sanitizeJson raw = sanitizeSpec Outside raw"
  by (simp add: sanitizeJson_def sanitizeLoop_spec)

subsection \<open>Fixed points of the scan\<close>


lemma not_control_plain:
  "\<not> ch < (0x20 :: jschar) \<Longrightarrow> ch \<noteq> 0x0A \<and> ch \<noteq> 0x0D \<and> ch \<noteq> 0x09"
  by auto

lemma unat_hexDigit:
  "d < 16 \<Longrightarrow> unat (hexDigit d) = (if d < 10 then 48 + d else 87 + d)"
  unfolding hexDigit_def by (simp only: unat_of_nat split: if_splits) simp

lemma hexDigit_plain:
  assumes "d < 16"
  shows "specEmit Inside (hexDigit d) = [hexDigit d]"
    and "specNext Inside (hexDigit d) = Inside"
proof -
  have range: "48 \<le> unat (hexDigit d)" "unat (hexDigit d) \<le> 102"
       "unat (hexDigit d) \<noteq> 92"
    using assms by (simp_all add: unat_hexDigit)
  have "\<not> hexDigit d < 0x20"
    using range(1) by (simp add: word_less_nat_alt)
  moreover have "hexDigit d \<noteq> BACKSLASH"
    using range(3) by auto
  moreover have "hexDigit d \<noteq> DQUOTE"
    using range(1) by auto
  ultimately show "specEmit Inside (hexDigit d) = [hexDigit d]"
    and "specNext Inside (hexDigit d) = Inside"
    using not_control_plain [of "hexDigit d"] by simp_all
qed

lemma rescan_plain:
  "specEmit Inside x = [x] \<Longrightarrow> specNext Inside x = Inside \<Longrightarrow>
   sanitizeSpec Inside (x # rest) = x # sanitizeSpec Inside rest"
  by simp

lemma rescan_hex: "d < 16 \<Longrightarrow> sanitizeSpec Inside (hexDigit d # rest) = hexDigit d # sanitizeSpec Inside rest"
  by (rule rescan_plain) (rule hexDigit_plain, assumption)+

lemma rescan_escape_pair:
  "sanitizeSpec Inside (BACKSLASH # x # rest) = BACKSLASH # x # sanitizeSpec Inside rest"
  by simp

lemma rescan_unicodeEscape4:
  assumes "ch < 0x20"
  shows "sanitizeSpec Inside (unicodeEscape4 ch @ rest) =
         unicodeEscape4 ch @ sanitizeSpec Inside rest"
proof -
  from assms have "unat ch < 32" by (simp add: word_less_nat_alt)
  then have d: "unat ch div 4096 < 16" "unat ch div 256 mod 16 < 16"
    "unat ch div 16 mod 16 < 16" "unat ch mod 16 < 16"
    by simp_all
  show ?thesis
    unfolding unicodeEscape4_def append_Cons append_Nil
    by (simp only: rescan_escape_pair rescan_hex [OF d(1)] rescan_hex [OF d(2)]
        rescan_hex [OF d(3)] rescan_hex [OF d(4)])
qed

lemma rescan_emitted:
  "sanitizeSpec p (specEmit p ch @ rest) = specEmit p ch @ sanitizeSpec (specNext p ch) rest"
proof (cases p)
  case Inside
  show ?thesis
  proof (cases "ch < 0x20")
    case True
    then have "ch \<noteq> DQUOTE" "ch \<noteq> BACKSLASH" by auto
    with True Inside show ?thesis
      by (simp add: rescan_unicodeEscape4)
  next
    case False
    with Inside show ?thesis
      using not_control_plain [OF False] by simp
  qed
qed simp_all

lemma sanitizeSpec_idem: "sanitizeSpec p (sanitizeSpec p raw) = sanitizeSpec p raw"
proof (induction raw arbitrary: p)
  case Nil
  show ?case by simp
next
  case (Cons ch rest)
  have "sanitizeSpec p (sanitizeSpec p (ch # rest)) =
        specEmit p ch @ sanitizeSpec (specNext p ch) (sanitizeSpec (specNext p ch) rest)"
    by (simp add: rescan_emitted)
  also have "\<dots> = sanitizeSpec p (ch # rest)"
    by (simp add: Cons.IH)
  finally show ?case .
qed

lemma sanitizeSpec_unchanged:
  "list_all (\<lambda>(q, ch). q = Outside \<or> \<not> ch < 0x20) (zip (scanPositions p raw) raw)
   \<Longrightarrow> sanitizeSpec p raw = raw"
proof (induction raw arbitrary: p)
  case Nil
  show ?case by simp
next
  case (Cons ch rest)
  then have tail: "sanitizeSpec (specNext p ch) rest = rest"
    and here: "p = Outside \<or> \<not> ch < 0x20"
    by simp_all
  from here have "specEmit p ch = [ch]"
    using not_control_plain [of ch] by (cases p) auto
  with tail show ?case by simp
qed

text \<open>
  Claim C10. An input with no character below 0x20 inside its quoted string regions is
  returned unchanged, and for every input sanitizing twice gives what sanitizing once
  gives.
\<close>

theorem sanitizeJson_unchanged_and_idempotent:
  "(noControlInStrings raw \<longrightarrow> sanitizeJson raw = raw) \<and>
   sanitizeJson (sanitizeJson raw) = sanitizeJson raw"
  by (simp add: sanitizeJson_spec sanitizeSpec_idem sanitizeSpec_unchanged
      noControlInStrings_def)

theorem sanitizeJson_unchanged_and_idempotent_witness:
  "noControlInStrings exampleClean \<and> sanitizeJson exampleClean = exampleClean \<and>
   sanitizeJson (sanitizeJson exampleDirty) = sanitizeJson exampleDirty \<and>
   sanitizeJson exampleDirty \<noteq> exampleDirty"
proof -
  have clean: "noControlInStrings exampleClean" by code_simp
  have changed: "sanitizeJson exampleDirty \<noteq> exampleDirty" by code_simp
  from clean changed sanitizeJson_unchanged_and_idempotent [of exampleClean]
    sanitizeJson_unchanged_and_idempotent [of exampleDirty]
  show ?thesis by simp
qed

section \<open>Properties of the reconciler\<close>

lemma collapseRuns_skip:
  "collapseRuns True cs = collapseRuns False (dropWhile isWhiteSpace cs)"
  by (induction cs) simp_all

lemma replaceWhitespaceRuns_collapse: "replaceWhitespaceRuns s = collapseRuns False s"
  by (induction s rule: replaceWhitespaceRuns.induct) (simp_all add: collapseRuns_skip)

lemma normalizeForMatch_spec: "normalizeForMatch lower s = normalizeSpec lower s"
  by (simp add: normalizeForMatch_def normalizeSpec_def replaceWhitespaceRuns_collapse)

lemma startsWith_prefix: "startsWith s p = prefix p s"
  by (auto simp add: startsWith_def prefix_def) (metis append_take_drop_id)

lemma cleanFilePath_spec: "cleanFilePath st raw = stripPrefixSpec (collection st) raw"
  by (simp add: cleanFilePath_def stripPrefixSpec_def startsWith_prefix Let_def)

lemma replaceMdSuffix_spec: "replaceMdSuffix s = stripMdSpec s"
proof (cases "suffix (js ''.md'') s")
  case True
  then obtain pre where "s = pre @ js ''.md''" by (auto simp add: suffix_def)
  with True show ?thesis by (simp add: replaceMdSuffix_def stripMdSpec_def js_def)
next
  case False
  have "\<not> (3 \<le> length s \<and> drop (length s - 3) s = js ''.md'')"
  proof
    assume "3 \<le> length s \<and> drop (length s - 3) s = js ''.md''"
    then have "s = take (length s - 3) s @ js ''.md''" by (metis append_take_drop_id)
    then have "suffix (js ''.md'') s" by (metis suffixI)
    with False show False by simp
  qed
  then have "replaceMdSuffix s = s"
    unfolding replaceMdSuffix_def by (rule if_not_P)
  with False show ?thesis by (simp add: stripMdSpec_def)
qed

lemma split_not_Nil: "split sep s \<noteq> []"
  by (induction s) (simp_all split: list.splits)

lemma split_without_sep: "sep \<notin> set s \<Longrightarrow> split sep s = [s]"
  by (induction s) auto

lemma split_with_sep: "sep \<in> set s \<Longrightarrow> \<exists>seg segs. split sep s = seg # segs \<and> segs \<noteq> []"
proof (induction s)
  case Nil
  then show ?case by simp
next
  case (Cons c cs)
  show ?case
  proof (cases "c = sep")
    case True
    with split_not_Nil [of sep cs] show ?thesis by simp
  next
    case False
    with Cons.prems have "sep \<in> set cs" by simp
    from Cons.IH [OF this] False show ?thesis by auto
  qed
qed

lemma bareNameSpec_Cons:
  "bareNameSpec (c # cs) = (if SLASH \<in> set cs then bareNameSpec cs
                            else if c = SLASH then cs else c # cs)"
proof (cases "SLASH \<in> set cs")
  case True
  then have "takeWhile (\<lambda>c. c \<noteq> SLASH) (rev cs @ [c]) = takeWhile (\<lambda>c. c \<noteq> SLASH) (rev cs)"
    by (intro takeWhile_append1 [of SLASH]) simp_all
  with True show ?thesis by (simp add: bareNameSpec_def)
next
  case False
  then have "takeWhile (\<lambda>c. c \<noteq> SLASH) (rev cs @ [c]) = rev cs @ takeWhile (\<lambda>c. c \<noteq> SLASH) [c]"
    by (intro takeWhile_append2) auto
  with False show ?thesis by (simp add: bareNameSpec_def)
qed


lemma last_split: "last (split SLASH s) = bareNameSpec s"
proof (induction s)
  case Nil
  show ?case by (simp add: bareNameSpec_def)
next
  case (Cons c cs)
  show ?case
  proof (cases "SLASH \<in> set cs")
    case True
    from split_with_sep [OF True] obtain seg segs
      where sp: "split SLASH cs = seg # segs" "segs \<noteq> []" by blast
    with Cons.IH True show ?thesis
      by (simp add: bareNameSpec_Cons)
  next
    case False
    then have "split SLASH cs = [cs]" by (rule split_without_sep)
    with False show ?thesis
      by (simp add: bareNameSpec_Cons)
  qed
qed

lemma matchBasename_find:
  "matchBasename lower key files =
   (case find (\<lambda>f. normalizeSpec lower (basename f) = key) files of
      Some f \<Rightarrow> Some (path f) | None \<Rightarrow> None)"
  by (induction files) (simp_all add: normalizeForMatch_spec)

lemma matchFullPath_find:
  "matchFullPath lower key files =
   (case find (\<lambda>f. normalizeSpec lower (stripMdSpec (path f)) = key) files of
      Some f \<Rightarrow> Some (path f) | None \<Rightarrow> None)"
  by (induction files) (simp_all add: normalizeForMatch_spec replaceMdSuffix_spec)

lemma resolveVaultFile_steps:
  "resolveVaultFile lower st files raw =
   (if normalizeSpec lower (stripMdSpec (bareNameSpec (stripPrefixSpec (collection st) raw))) = []
    then None
    else reconcileSpec lower (collection st) files raw)"
  by (simp add: resolveVaultFile_def reconcileSpec_def Let_def cleanFilePath_spec
      normalizeForMatch_spec replaceMdSuffix_spec last_split matchBasename_find
      matchFullPath_find split: option.splits)

lemma collapseRuns_False_not_Nil: "s \<noteq> [] \<Longrightarrow> collapseRuns False s \<noteq> []"
  by (cases s) simp_all

lemma whitespace_not_slash: "isWhiteSpace c \<Longrightarrow> c \<noteq> SLASH"
  by (auto simp add: isWhiteSpace_def)

lemma collapseRuns_last_slash:
  "s \<noteq> [] \<Longrightarrow>
   (collapseRuns b s \<noteq> [] \<and> last (collapseRuns b s) = SLASH) = (last s = SLASH)"
proof (induction s arbitrary: b)
  case Nil
  then show ?case by simp
next
  case (Cons c cs)
  show ?case
  proof (cases "cs = []")
    case True
    then show ?thesis using whitespace_not_slash [of c] by auto
  next
    case False
    note ih = Cons.IH [OF False]
    show ?thesis
    proof (cases "isWhiteSpace c")
      case True
      with False ih [of True] show ?thesis by auto
    next
      case notws: False
      with False ih [of False] collapseRuns_False_not_Nil [OF False] show ?thesis by auto
    qed
  qed
qed

lemma normalizeSpec_Nil_iff:
  assumes "\<And>s. (lower s = []) = (s = [])"
  shows "(normalizeSpec lower s = []) = (s = [])"
proof (cases "s = []")
  case True
  with assms [of s] show ?thesis by (simp add: normalizeSpec_def)
next
  case False
  with assms [of s] have "lower s \<noteq> []" by simp
  with False show ?thesis by (simp add: normalizeSpec_def collapseRuns_False_not_Nil)
qed

lemma normalizeSpec_last_slash:
  assumes "\<And>s. (lower s = []) = (s = [])"
    and "\<And>s. s \<noteq> [] \<Longrightarrow> (last (lower s) = SLASH) = (last s = SLASH)"
    and "s \<noteq> []"
  shows "(last (normalizeSpec lower s) = SLASH) = (last s = SLASH)"
proof -
  from assms(1) [of s] assms(3) have ne: "lower s \<noteq> []" by simp
  from collapseRuns_last_slash [OF ne, of False] collapseRuns_False_not_Nil [OF ne]
  have "(last (collapseRuns False (lower s)) = SLASH) = (last (lower s) = SLASH)" by simp
  with assms(2) [OF assms(3)] show ?thesis by (simp add: normalizeSpec_def)
qed

lemma bareNameSpec_split:
  "\<exists>pre. s = pre @ bareNameSpec s \<and> (pre = [] \<or> last pre = SLASH)"
proof -
  define pre where "pre = rev (dropWhile (\<lambda>c. c \<noteq> SLASH) (rev s))"
  have "rev s = takeWhile (\<lambda>c. c \<noteq> SLASH) (rev s) @ dropWhile (\<lambda>c. c \<noteq> SLASH) (rev s)"
    by simp
  then have "rev (rev s) = pre @ bareNameSpec s"
    unfolding pre_def bareNameSpec_def by (metis rev_append)
  then have eq: "s = pre @ bareNameSpec s" by simp
  have "pre = [] \<or> last pre = SLASH"
  proof (cases "dropWhile (\<lambda>c. c \<noteq> SLASH) (rev s)")
    case Nil
    then show ?thesis by (simp add: pre_def)
  next
    case (Cons x xs)
    then have "x = SLASH" using hd_dropWhile [of "\<lambda>c. c \<noteq> SLASH" "rev s"] by auto
    with Cons show ?thesis by (simp add: pre_def)
  qed
  with eq show ?thesis by blast
qed

lemma stripMdSpec_append_md: "stripMdSpec (pre @ js ''.md'') = pre"
proof -
  have "suffix (js ''.md'') (pre @ js ''.md'')" by (intro suffixI) (rule refl)
  then show ?thesis by (simp add: stripMdSpec_def js_def)
qed

lemma stripMdSpec_slash_end: "s \<noteq> [] \<Longrightarrow> last s = SLASH \<Longrightarrow> stripMdSpec s = s"
proof -
  assume ne: "s \<noteq> []" and sl: "last s = SLASH"
  have "\<not> suffix (js ''.md'') s"
  proof
    assume "suffix (js ''.md'') s"
    then obtain pre where "s = pre @ js ''.md''" by (auto simp add: suffix_def)
    then have "last s = 0x64" by (simp add: js_def)
    with sl show False by simp
  qed
  then show ?thesis by (simp add: stripMdSpec_def)
qed

lemma stripMdSpec_Nil: "stripMdSpec b = [] \<Longrightarrow> b = [] \<or> b = js ''.md''"
proof (cases "suffix (js ''.md'') b")
  case True
  assume e: "stripMdSpec b = []"
  from True obtain pre where b: "b = pre @ js ''.md''" by (auto simp add: suffix_def)
  with e stripMdSpec_append_md [of pre] have "pre = []" by simp
  with b show ?thesis by simp
next
  case False
  assume "stripMdSpec b = []"
  with False show ?thesis by (simp add: stripMdSpec_def)
qed

lemma empty_bare_name_reference:
  assumes "stripMdSpec (bareNameSpec cleaned) = []"
  shows "stripMdSpec cleaned = [] \<or> last (stripMdSpec cleaned) = SLASH"
proof -
  from bareNameSpec_split [of cleaned] obtain pre
    where c: "cleaned = pre @ bareNameSpec cleaned" and pre: "pre = [] \<or> last pre = SLASH"
    by blast
  from stripMdSpec_Nil [OF assms] show ?thesis
  proof
    assume "bareNameSpec cleaned = []"
    with c have "cleaned = pre" by simp
    with pre show ?thesis using stripMdSpec_slash_end [of pre]
      by (cases "pre = []") (auto simp add: stripMdSpec_def)
  next
    assume "bareNameSpec cleaned = js ''.md''"
    with c have "cleaned = pre @ js ''.md''" by simp
    then have "stripMdSpec cleaned = pre" by (simp add: stripMdSpec_append_md)
    with pre show ?thesis by auto
  qed
qed

lemma vault_entry_path:
  assumes "isVaultEntry f"
  shows "stripMdSpec (path f) \<noteq> []" and "last (stripMdSpec (path f)) \<noteq> SLASH"
proof -
  from assms obtain dir where p: "path f = dir @ basename f @ js ''.md''"
    and b: "basename f \<noteq> []" "SLASH \<notin> set (basename f)"
    by (auto simp add: isVaultEntry_def suffix_def)
  have "path f = (dir @ basename f) @ js ''.md''" using p by simp
  then have s: "stripMdSpec (path f) = dir @ basename f"
    by (simp only: stripMdSpec_append_md)
  from b show "stripMdSpec (path f) \<noteq> []" by (simp add: s)
  have "last (basename f) \<noteq> SLASH"
    using b last_in_set [of "basename f"] by metis
  with b(1) show "last (stripMdSpec (path f)) \<noteq> SLASH" by (simp add: s)
qed

text \<open>
  Claim C6. For every raw reference and every collection of vault entries the reconciler
  strips a \<^verbatim>\<open>qmd://collection/\<close> or \<^verbatim>\<open>collection/\<close> prefix and a trailing \<^verbatim>\<open>.md\<close>,
  normalizes by lowercasing and collapsing every run of whitespace to one hyphen, and
  returns the first entry whose normalized base name equals the normalized bare name;
  failing that, the first entry whose normalized full path (minus \<^verbatim>\<open>.md\<close>) equals the
  normalized cleaned reference (minus \<^verbatim>\<open>.md\<close>); failing both, null. Of lowercasing it
  is used that only the empty string becomes empty and that the result ends with a
  slash exactly when the argument does.
\<close>

theorem resolveVaultFile_is_reconcileSpec:
  assumes low_empty: "\<And>s. (lower s = []) = (s = [])"
    and low_slash: "\<And>s. s \<noteq> [] \<Longrightarrow> (last (lower s) = SLASH) = (last s = SLASH)"
    and entries: "list_all isVaultEntry files"
  shows "resolveVaultFile lower st files raw = reconcileSpec lower (collection st) files raw"
proof (cases "normalizeSpec lower
    (stripMdSpec (bareNameSpec (stripPrefixSpec (collection st) raw))) = []")
  case False
  then show ?thesis by (simp add: resolveVaultFile_steps)
next
  case True
  define cleaned where "cleaned = stripPrefixSpec (collection st) raw"
  define full where "full = normalizeSpec lower (stripMdSpec cleaned)"
  from True have bare: "stripMdSpec (bareNameSpec cleaned) = []"
    by (simp add: cleaned_def normalizeSpec_Nil_iff [OF low_empty])
  have no_base: "normalizeSpec lower (basename f) \<noteq> []" if "f \<in> set files" for f
  proof -
    from that entries have "basename f \<noteq> []"
      by (simp add: list_all_iff isVaultEntry_def)
    then show ?thesis by (simp add: normalizeSpec_Nil_iff [OF low_empty])
  qed
  have no_path: "normalizeSpec lower (stripMdSpec (path f)) \<noteq> full" if "f \<in> set files" for f
  proof -
    from that entries have "isVaultEntry f" by (simp add: list_all_iff)
    from vault_entry_path [OF this]
    have ne: "stripMdSpec (path f) \<noteq> []" and ns: "last (stripMdSpec (path f)) \<noteq> SLASH" .
    from ne have n1: "normalizeSpec lower (stripMdSpec (path f)) \<noteq> []"
      by (simp add: normalizeSpec_Nil_iff [OF low_empty])
    from ns have n2: "last (normalizeSpec lower (stripMdSpec (path f))) \<noteq> SLASH"
      by (simp add: normalizeSpec_last_slash [OF low_empty low_slash ne])
    from empty_bare_name_reference [OF bare] show ?thesis
    proof
      assume "stripMdSpec cleaned = []"
      then have "full = []" by (simp add: full_def normalizeSpec_Nil_iff [OF low_empty])
      with n1 show ?thesis by simp
    next
      assume sl: "last (stripMdSpec cleaned) = SLASH"
      show ?thesis
      proof (cases "stripMdSpec cleaned = []")
        case True
        then have "full = []" by (simp add: full_def normalizeSpec_Nil_iff [OF low_empty])
        with n1 show ?thesis by simp
      next
        case False
        with sl have "last full = SLASH"
          by (simp add: full_def normalizeSpec_last_slash [OF low_empty low_slash False])
        with n2 show ?thesis by auto
      qed
    qed
  qed
  have f1: "find (\<lambda>f. normalizeSpec lower (basename f) = []) files = None"
    using no_base by (simp add: find_None_iff)
  have f2: "find (\<lambda>f. normalizeSpec lower (stripMdSpec (path f)) = full) files = None"
    using no_path by (simp add: find_None_iff)
  from True have "reconcileSpec lower (collection st) files raw = None"
    using f1 f2 by (simp add: reconcileSpec_def Let_def cleaned_def full_def)
  with True show ?thesis by (simp add: resolveVaultFile_steps)
qed

lemma asciiLowerCase_Nil: "(asciiLowerCase s = []) = (s = [])"
  by (simp add: asciiLowerCase_def)

lemma asciiLowerCase_last_slash:
  "s \<noteq> [] \<Longrightarrow> (last (asciiLowerCase s) = SLASH) = (last s = SLASH)"
proof -
  assume ne: "s \<noteq> []"
  have one: "((if 0x41 \<le> c \<and> c \<le> 0x5A then c + 0x20 else c) = SLASH) = (c = SLASH)"
    for c :: jschar
  proof (cases "0x41 \<le> c \<and> c \<le> 0x5A")
    case True
    then have "65 \<le> unat c" by (simp add: word_le_nat_alt)
    then have "c \<noteq> 0x0F" "c \<noteq> SLASH" by auto
    with True show ?thesis by simp
  next
    case False
    then show ?thesis by auto
  qed
  from ne show ?thesis by (simp add: asciiLowerCase_def last_map one)
qed

theorem resolveVaultFile_is_reconcileSpec_witness:
  "list_all isVaultEntry planFiles \<and>
   resolveVaultFile asciiLowerCase defaultSettings planFiles (js ''qmd://obsidian/Old/q3  plan.md'') =
     reconcileSpec asciiLowerCase (collection defaultSettings) planFiles
       (js ''qmd://obsidian/Old/q3  plan.md'') \<and>
   reconcileSpec asciiLowerCase (collection defaultSettings) planFiles
       (js ''qmd://obsidian/Old/q3  plan.md'') = Some (js ''Projects/Q3 Plan.md'') \<and>
   resolveVaultFile asciiLowerCase defaultSettings planFiles (js ''obsidian/Projects/'') =
     reconcileSpec asciiLowerCase (collection defaultSettings) planFiles (js ''obsidian/Projects/'') \<and>
   reconcileSpec asciiLowerCase (collection defaultSettings) planFiles (js ''obsidian/Projects/'') = None"
proof -
  have entries: "list_all isVaultEntry planFiles" by code_simp
  have r1: "reconcileSpec asciiLowerCase (collection defaultSettings) planFiles
       (js ''qmd://obsidian/Old/q3  plan.md'') = Some (js ''Projects/Q3 Plan.md'')"
    by code_simp
  have r2: "reconcileSpec asciiLowerCase (collection defaultSettings) planFiles
       (js ''obsidian/Projects/'') = None"
    by code_simp
  note inst = resolveVaultFile_is_reconcileSpec [where lower = asciiLowerCase
      and files = planFiles and st = defaultSettings,
      OF asciiLowerCase_Nil asciiLowerCase_last_slash entries]
  from inst [of "js ''qmd://obsidian/Old/q3  plan.md''"] inst [of "js ''obsidian/Projects/''"]
    entries r1 r2
  show ?thesis by simp
qed

lemma resolveVaultFile_examples:
  "resolveVaultFile asciiLowerCase defaultSettings
     [\<lparr>path = js ''Archive/My Doc.md'', basename = js ''My Doc''\<rparr>]
     (js ''obsidian/Notes/my  doc.md'') = Some (js ''Archive/My Doc.md'') \<and>
   resolveVaultFile asciiLowerCase defaultSettings
     [\<lparr>path = js ''Projects/Q3 Plan.md'', basename = js ''Q3 Plan''\<rparr>]
     (js ''qmd://obsidian/Projects/Q3 Plan.md'') = Some (js ''Projects/Q3 Plan.md'') \<and>
   resolveVaultFile asciiLowerCase defaultSettings
     [\<lparr>path = js ''Projects/Q3 Plan.md'', basename = js ''Q3 Plan''\<rparr>]
     (js ''obsidian/Projects/Q4 Plan.md'') = None"
  by code_simp

lemma matchBasename_first:
  "i < length files \<Longrightarrow> normalizeForMatch lower (basename (files ! i)) = key \<Longrightarrow>
   \<exists>k\<le>i. matchBasename lower key files = Some (path (files ! k)) \<and>
     normalizeForMatch lower (basename (files ! k)) = key \<and>
     (\<forall>m<k. normalizeForMatch lower (basename (files ! m)) \<noteq> key)"
proof (induction files arbitrary: i)
  case Nil
  then show ?case by simp
next
  case (Cons f rest)
  show ?case
  proof (cases "normalizeForMatch lower (basename f) = key")
    case True
    then have "matchBasename lower key (f # rest) = Some (path ((f # rest) ! 0)) \<and>
      normalizeForMatch lower (basename ((f # rest) ! 0)) = key \<and>
      (\<forall>m<0. normalizeForMatch lower (basename ((f # rest) ! m)) \<noteq> key)"
      by simp
    then show ?thesis by blast
  next
    case False
    with Cons.prems obtain i' where i': "i = Suc i'" by (cases i) auto
    with Cons.prems have "i' < length rest"
      "normalizeForMatch lower (basename (rest ! i')) = key" by simp_all
    from Cons.IH [OF this] obtain k where k: "k \<le> i'"
      "matchBasename lower key rest = Some (path (rest ! k))"
      "normalizeForMatch lower (basename (rest ! k)) = key"
      "\<forall>m<k. normalizeForMatch lower (basename (rest ! m)) \<noteq> key"
      by blast
    have "\<forall>m<Suc k. normalizeForMatch lower (basename ((f # rest) ! m)) \<noteq> key"
    proof (intro allI impI)
      fix m assume "m < Suc k"
      with False k(4) show "normalizeForMatch lower (basename ((f # rest) ! m)) \<noteq> key"
        by (cases m) simp_all
    qed
    with False k i' have "Suc k \<le> i \<and>
      matchBasename lower key (f # rest) = Some (path ((f # rest) ! Suc k)) \<and>
      normalizeForMatch lower (basename ((f # rest) ! Suc k)) = key \<and>
      (\<forall>m<Suc k. normalizeForMatch lower (basename ((f # rest) ! m)) \<noteq> key)"
      by simp
    then show ?thesis by blast
  qed
qed

text \<open>
  Claim C5, amended. When two or more entries share the normalized base name of the
  reference's bare name (not empty), the reconciler decides by base name alone: it
  returns the first such entry of the collection and never null, whatever the full
  paths are.
\<close>

theorem duplicate_base_names_first_candidate:
  assumes "i < j" and "j < length files"
    and "normalizeForMatch lower (basename (files ! i)) = bare"
    and "normalizeForMatch lower (basename (files ! j)) = bare"
    and "bare = normalizeForMatch lower
                  (replaceMdSuffix (last (split SLASH (cleanFilePath st raw))))"
    and "bare \<noteq> []"
  shows "\<exists>k\<le>i. resolveVaultFile lower st files raw = Some (path (files ! k)) \<and>
           normalizeForMatch lower (basename (files ! k)) = bare \<and>
           (\<forall>m<k. normalizeForMatch lower (basename (files ! m)) \<noteq> bare)"
proof -
  from assms(1,2) have "i < length files" by simp
  from matchBasename_first [OF this assms(3)] obtain k where k: "k \<le> i"
    "matchBasename lower bare files = Some (path (files ! k))"
    "normalizeForMatch lower (basename (files ! k)) = bare"
    "\<forall>m<k. normalizeForMatch lower (basename (files ! m)) \<noteq> bare"
    by blast
  from k(2) assms(5,6) have "resolveVaultFile lower st files raw = Some (path (files ! k))"
    by (simp add: resolveVaultFile_def Let_def)
  with k show ?thesis by blast
qed

theorem duplicate_base_names_first_candidate_witness:
  "(0::nat) < 1 \<and> 1 < length duplicateDocs \<and>
   normalizeForMatch asciiLowerCase (basename (duplicateDocs ! 0)) = js ''doc'' \<and>
   normalizeForMatch asciiLowerCase (basename (duplicateDocs ! 1)) = js ''doc'' \<and>
   js ''doc'' = normalizeForMatch asciiLowerCase
       (replaceMdSuffix (last (split SLASH (cleanFilePath defaultSettings (js ''Notes/Doc.md''))))) \<and>
   js ''doc'' \<noteq> [] \<and>
   (\<exists>k\<le>0. resolveVaultFile asciiLowerCase defaultSettings duplicateDocs (js ''Notes/Doc.md'') =
        Some (path (duplicateDocs ! k)) \<and>
      normalizeForMatch asciiLowerCase (basename (duplicateDocs ! k)) = js ''doc'' \<and>
      (\<forall>m<k. normalizeForMatch asciiLowerCase (basename (duplicateDocs ! m)) \<noteq> js ''doc''))"
proof -
  have h1: "(0::nat) < 1" by simp
  have h2: "1 < length duplicateDocs" by code_simp
  have h3: "normalizeForMatch asciiLowerCase (basename (duplicateDocs ! 0)) = js ''doc''"
    by code_simp
  have h4: "normalizeForMatch asciiLowerCase (basename (duplicateDocs ! 1)) = js ''doc''"
    by code_simp
  have h5: "js ''doc'' = normalizeForMatch asciiLowerCase
       (replaceMdSuffix (last (split SLASH (cleanFilePath defaultSettings (js ''Notes/Doc.md'')))))"
    by code_simp
  have h6: "js ''doc'' \<noteq> []" by code_simp
  from duplicate_base_names_first_candidate [OF h1 h2 h3 h4 h5 h6] h1 h2 h3 h4 h5 h6
  show ?thesis by blast
qed

text \<open>
  The claim as it was written fails: \<^verbatim>\<open>Doc.md\<close> has no path component, two entries
  share its base name, no normalized full path equals it, and the reconciler returns
  the first of the two entries, not null.
\<close>

theorem duplicate_base_names_counterexample:
  "normalizeForMatch asciiLowerCase (basename (duplicateDocs ! 0)) =
     normalizeForMatch asciiLowerCase (replaceMdSuffix (js ''Doc.md'')) \<and>
   normalizeForMatch asciiLowerCase (basename (duplicateDocs ! 1)) =
     normalizeForMatch asciiLowerCase (replaceMdSuffix (js ''Doc.md'')) \<and>
   split SLASH (cleanFilePath defaultSettings (js ''Doc.md'')) = [js ''Doc.md''] \<and>
   normalizeForMatch asciiLowerCase (replaceMdSuffix (path (duplicateDocs ! 0))) \<noteq>
     normalizeForMatch asciiLowerCase (replaceMdSuffix (cleanFilePath defaultSettings (js ''Doc.md''))) \<and>
   normalizeForMatch asciiLowerCase (replaceMdSuffix (path (duplicateDocs ! 1))) \<noteq>
     normalizeForMatch asciiLowerCase (replaceMdSuffix (cleanFilePath defaultSettings (js ''Doc.md''))) \<and>
   resolveVaultFile asciiLowerCase defaultSettings duplicateDocs (js ''Doc.md'') =
     Some (js ''A/Doc.md'')"
  by code_simp

section \<open>Properties of the close handler\<close>

lemma indexOf_absent: "c \<notin> set s \<Longrightarrow> indexOf s c = -1"
  by (induction s) auto

lemma indexOf_present: "c \<in> set s \<Longrightarrow> indexOf s c = int (length (takeWhile (\<lambda>x. x \<noteq> c) s))"
proof (induction s)
  case Nil
  then show ?case by simp
next
  case (Cons x xs)
  show ?case
  proof (cases "x = c")
    case True
    then show ?thesis by simp
  next
    case False
    with Cons.prems have "c \<in> set xs" by simp
    with Cons.IH False show ?thesis by (simp add: Let_def)
  qed
qed

lemma indexOf_minus_one: "indexOf s c = -1 \<longleftrightarrow> c \<notin> set s"
  using indexOf_absent [of c s] indexOf_present [of c s] by auto

lemma takeWhile_stops: "c \<in> set s \<Longrightarrow> length (takeWhile (\<lambda>x. x \<noteq> c) s) < length s"
  by (induction s) auto

lemma lastIndexOf_minus_one: "lastIndexOf s c = -1 \<longleftrightarrow> c \<notin> set s"
proof (cases "c \<in> set s")
  case True
  then have "c \<in> set (rev s)" by simp
  then have r: "indexOf (rev s) c = int (length (takeWhile (\<lambda>x. x \<noteq> c) (rev s)))"
    and "length (takeWhile (\<lambda>x. x \<noteq> c) (rev s)) < length (rev s)"
    by (rule indexOf_present, rule takeWhile_stops)
  with True show ?thesis by (simp add: lastIndexOf_def Let_def)
next
  case False
  then show ?thesis by (simp add: lastIndexOf_def indexOf_absent)
qed

lemma slice_inside:
  "a \<le> length s \<Longrightarrow> b \<le> length s \<Longrightarrow> slice s (int a) (int b) = take (b - a) (drop a s)"
proof -
  assume a: "a \<le> length s" and b: "b \<le> length s"
  have "nat (int b - int a) = b - a" by simp
  with a b show ?thesis
    by (simp add: slice_def Let_def min_absorb1)
qed


lemma jsonStr_bracketSpan:
  assumes "LBRACKET \<in> set out" "RBRACKET \<in> set out"
  shows "jsonStr out = bracketSpan out"
proof -
  define a where "a = length (takeWhile (\<lambda>c. c \<noteq> LBRACKET) out)"
  define b where "b = length (takeWhile (\<lambda>c. c \<noteq> RBRACKET) (rev out))"
  have ia: "indexOf out LBRACKET = int a"
    unfolding a_def using assms(1) by (rule indexOf_present)
  from assms(2) have "RBRACKET \<in> set (rev out)" by simp
  then have ib: "indexOf (rev out) RBRACKET = int b" and "b < length (rev out)"
    unfolding b_def by (rule indexOf_present, rule takeWhile_stops)
  then have blt: "b < length out" by simp
  have ale: "a \<le> length out" unfolding a_def by (rule length_takeWhile_le)
  from ib blt have "lastIndexOf out RBRACKET + 1 = int (length out - b)"
    by (simp add: lastIndexOf_def Let_def)
  then have "jsonStr out = slice out (int a) (int (length out - b))"
    by (simp add: jsonStr_def ia)
  also have "\<dots> = take (length out - b - a) (drop a out)"
    using ale by (intro slice_inside) simp_all
  also have "\<dots> = bracketSpan out"
    by (simp add: bracketSpan_def Let_def a_def b_def)
  finally show ?thesis .
qed

lemma parseAndRender_no_brackets:
  "LBRACKET \<notin> set out \<or> RBRACKET \<notin> set out \<Longrightarrow>
   parseAndRender rt st out s = s\<lparr>statusEl := ShowNoResults\<rparr>"
  by (auto simp add: parseAndRender_def Let_def indexOf_minus_one lastIndexOf_minus_one
      showStatus_def)

lemma parseFailureMessage_not_empty: "parseFailureMessage st \<noteq> []"
  by (simp add: parseFailureMessage_def js_def)

lemma parseAndRender_brackets:
  assumes "LBRACKET \<in> set out" "RBRACKET \<in> set out"
  shows "parseAndRender rt st out s =
     (case parseJSON rt (sanitizeJson (bracketSpan out)) of
        None \<Rightarrow> s\<lparr>statusEl := ShowError (parseFailureMessage st)\<rparr>
      | Some (JArray []) \<Rightarrow> s\<lparr>results := [], statusEl := ShowNoResults\<rparr>
      | Some (JArray (x # xs)) \<Rightarrow>
          (if snd (renderResults rt (x # xs))
           then s\<lparr>results := x # xs, rows := fst (renderResults rt (x # xs)),
                  statusEl := ShowError (parseFailureMessage st)\<rparr>
           else s\<lparr>results := x # xs, rows := fst (renderResults rt (x # xs)),
                  statusEl := DisplayNone\<rparr>)
      | Some other \<Rightarrow> s\<lparr>results := [], statusEl := ShowNoResults\<rparr>)"
proof -
  have i: "indexOf out LBRACKET \<noteq> -1" "lastIndexOf out RBRACKET \<noteq> -1"
    using assms by (simp_all add: indexOf_minus_one lastIndexOf_minus_one)
  show ?thesis
    unfolding parseAndRender_def Let_def jsonStr_bracketSpan [OF assms]
    using i parseFailureMessage_not_empty [of st]
    by (simp add: showStatus_def split: option.splits json.splits list.splits prod.splits)
qed

text \<open>
  Claim C2, amended. For every raw output the handler reports the parse failure if and
  only if the text has a \<^verbatim>\<open>[\<close> and a \<^verbatim>\<open>]\<close> and either parsing the sanitized text
  between the first \<^verbatim>\<open>[\<close> and the last \<^verbatim>\<open>]\<close> throws, or it gives an array whose
  rendering throws. When the text has no \<^verbatim>\<open>[\<close> or no \<^verbatim>\<open>]\<close> the handler shows the
  empty-results status and no error, and when the sanitized text parses to a value that
  is not an array it stores zero results and shows the empty-results status.
\<close>

theorem parse_block_outcomes:
  "(statusEl (parseAndRender rt st out s) = ShowError (parseFailureMessage st) \<longleftrightarrow>
      LBRACKET \<in> set out \<and> RBRACKET \<in> set out \<and>
      (parseJSON rt (sanitizeJson (bracketSpan out)) = None \<or>
       (\<exists>items. parseJSON rt (sanitizeJson (bracketSpan out)) = Some (JArray items) \<and>
                snd (renderResults rt items)))) \<and>
   (LBRACKET \<notin> set out \<or> RBRACKET \<notin> set out \<longrightarrow>
      parseAndRender rt st out s = s\<lparr>statusEl := ShowNoResults\<rparr>) \<and>
   (LBRACKET \<in> set out \<and> RBRACKET \<in> set out \<and>
    parseJSON rt (sanitizeJson (bracketSpan out)) = Some v \<and> (\<forall>items. v \<noteq> JArray items) \<longrightarrow>
      parseAndRender rt st out s = s\<lparr>results := [], statusEl := ShowNoResults\<rparr>)"
proof (intro conjI impI)
  show "statusEl (parseAndRender rt st out s) = ShowError (parseFailureMessage st) \<longleftrightarrow>
      LBRACKET \<in> set out \<and> RBRACKET \<in> set out \<and>
      (parseJSON rt (sanitizeJson (bracketSpan out)) = None \<or>
       (\<exists>items. parseJSON rt (sanitizeJson (bracketSpan out)) = Some (JArray items) \<and>
                snd (renderResults rt items)))"
  proof (cases "LBRACKET \<in> set out \<and> RBRACKET \<in> set out")
    case True
    then have b: "LBRACKET \<in> set out" "RBRACKET \<in> set out" by simp_all
    have empty: "\<not> snd (renderResults rt [])" by (simp add: renderResults_def)
    show ?thesis
      unfolding parseAndRender_brackets [OF b]
      using b empty by (auto split: option.splits json.splits list.splits)
  next
    case False
    then have "parseAndRender rt st out s = s\<lparr>statusEl := ShowNoResults\<rparr>"
      by (intro parseAndRender_no_brackets) auto
    with False show ?thesis by auto
  qed
next
  assume "LBRACKET \<notin> set out \<or> RBRACKET \<notin> set out"
  then show "parseAndRender rt st out s = s\<lparr>statusEl := ShowNoResults\<rparr>"
    by (rule parseAndRender_no_brackets)
next
  assume a: "LBRACKET \<in> set out \<and> RBRACKET \<in> set out \<and>
    parseJSON rt (sanitizeJson (bracketSpan out)) = Some v \<and> (\<forall>items. v \<noteq> JArray items)"
  then have b: "LBRACKET \<in> set out" "RBRACKET \<in> set out" by simp_all
  from a show "parseAndRender rt st out s = s\<lparr>results := [], statusEl := ShowNoResults\<rparr>"
    unfolding parseAndRender_brackets [OF b]
    by (cases v) auto
qed

theorem parse_block_outcomes_witness:
  "parseAndRender referenceRuntime defaultSettings (js ''[oops'') newSession =
     newSession\<lparr>statusEl := ShowNoResults\<rparr> \<and>
   parseAndRender nonArrayRuntime defaultSettings (js ''[1]'') newSession =
     newSession\<lparr>results := [], statusEl := ShowNoResults\<rparr> \<and>
   statusEl (parseAndRender referenceRuntime defaultSettings (js ''[oops]'') newSession) =
     ShowError (parseFailureMessage defaultSettings)"
proof -
  have h1: "LBRACKET \<notin> set (js ''[oops'') \<or> RBRACKET \<notin> set (js ''[oops'')"
    by code_simp
  have h2: "LBRACKET \<in> set (js ''[1]'') \<and> RBRACKET \<in> set (js ''[1]'') \<and>
    parseJSON nonArrayRuntime (sanitizeJson (bracketSpan (js ''[1]''))) = Some JNull \<and>
    (\<forall>items. JNull \<noteq> JArray items)"
    by (simp add: nonArrayRuntime_def js_def)
  have h3: "LBRACKET \<in> set (js ''[oops]'') \<and> RBRACKET \<in> set (js ''[oops]'') \<and>
    (parseJSON referenceRuntime (sanitizeJson (bracketSpan (js ''[oops]''))) = None \<or>
     (\<exists>items. parseJSON referenceRuntime (sanitizeJson (bracketSpan (js ''[oops]''))) =
         Some (JArray items) \<and> snd (renderResults referenceRuntime items)))"
  proof -
    have "parseJSON referenceRuntime (sanitizeJson (bracketSpan (js ''[oops]''))) = None"
      by code_simp
    moreover have "LBRACKET \<in> set (js ''[oops]'') \<and> RBRACKET \<in> set (js ''[oops]'')"
      by (simp add: js_def)
    ultimately show ?thesis by simp
  qed
  from parse_block_outcomes [of referenceRuntime defaultSettings "js ''[oops''" newSession] h1
  have c1: "parseAndRender referenceRuntime defaultSettings (js ''[oops'') newSession =
     newSession\<lparr>statusEl := ShowNoResults\<rparr>" by blast
  from parse_block_outcomes [of nonArrayRuntime defaultSettings "js ''[1]''" newSession JNull] h2
  have c2: "parseAndRender nonArrayRuntime defaultSettings (js ''[1]'') newSession =
     newSession\<lparr>results := [], statusEl := ShowNoResults\<rparr>" by blast
  from parse_block_outcomes [of referenceRuntime defaultSettings "js ''[oops]''" newSession] h3
  have c3: "statusEl (parseAndRender referenceRuntime defaultSettings (js ''[oops]'') newSession) =
     ShowError (parseFailureMessage defaultSettings)" by blast
  from c1 c2 c3 show ?thesis by simp
qed

text \<open>
  The claim as it was written fails on the output \<^verbatim>\<open>[1]\<close>: parsing does not throw, and
  the handler reports the parse failure, because rendering the item \<^verbatim>\<open>1\<close> throws
  inside the same \<^verbatim>\<open>try\<close> block.
\<close>

theorem parse_error_without_parse_exception_counterexample:
  "parseJSON referenceRuntime (sanitizeJson (jsonStr (js ''[1]''))) =
     Some (JArray [JNumber (js ''1'')]) \<and>
   statusEl (parseAndRender referenceRuntime defaultSettings (js ''[1]'') newSession) =
     ShowError (parseFailureMessage defaultSettings)"
  by code_simp

lemma exit_message_not_empty: "js ''QMD exited with code '' \<noteq> []"
  by (simp add: js_def)

text \<open>
  Claim C9, amended. For every completion of the child of the session's current
  controller: when that controller is not aborted, an exit code that is neither zero
  nor null is reported as an error whose message is the trimmed stderr text, or
  \<^verbatim>\<open>QMD exited with code N\<close> when nothing is left after trimming, and a null exit code
  is never reported as such an error: it is handled as exit code 0 is, the output going
  through the parse block. When that controller is aborted, the completion changes
  nothing, whatever the exit code.
\<close>

theorem close_handler_exit_codes:
  assumes "abortController s = Some k" and "k < length (aborted s)"
  shows
  "(\<not> aborted s ! k \<and> code = Some n \<and> n \<noteq> 0 \<longrightarrow>
      step rt st s (ChildClose k code out err) =
        s\<lparr>statusEl := ShowError (if trim err \<noteq> [] then trim err
                                  else js ''QMD exited with code '' @ codeToString (Some n))\<rparr>) \<and>
   (\<not> aborted s ! k \<longrightarrow>
      step rt st s (ChildClose k None out err) = parseAndRender rt st out s) \<and>
   step rt st s (ChildClose k None out err) = step rt st s (ChildClose k (Some 0) out err) \<and>
   (aborted s ! k \<longrightarrow> step rt st s (ChildClose k code out err) = s)"
  using assms
  by (simp add: onChildClose_def currentAborted_def showStatus_def exit_message_not_empty)

theorem close_handler_exit_codes_witness:
  "abortController (runSearch (js ''plan'') newSession) = Some 0 \<and>
   \<not> aborted (runSearch (js ''plan'') newSession) ! 0 \<and>
   statusEl (step referenceRuntime defaultSettings (runSearch (js ''plan'') newSession)
       (ChildClose 0 (Some 1) [] (js ''collection not found'' @ [0x0A]))) =
     ShowError (js ''collection not found'') \<and>
   statusEl (step referenceRuntime defaultSettings (runSearch (js ''plan'') newSession)
       (ChildClose 0 (Some 127) [] [0x20, 0x0A])) = ShowError (js ''QMD exited with code 127'') \<and>
   step referenceRuntime defaultSettings (runSearch (js ''plan'') newSession)
       (ChildClose 0 None oneResult []) =
     parseAndRender referenceRuntime defaultSettings oneResult (runSearch (js ''plan'') newSession) \<and>
   abortController (onClose (runSearch (js ''plan'') newSession)) = Some 0 \<and>
   aborted (onClose (runSearch (js ''plan'') newSession)) ! 0 \<and>
   step referenceRuntime defaultSettings (onClose (runSearch (js ''plan'') newSession))
       (ChildClose 0 (Some 1) [] []) = onClose (runSearch (js ''plan'') newSession)"
proof -
  have live: "abortController (runSearch (js ''plan'') newSession) = Some 0"
    "0 < length (aborted (runSearch (js ''plan'') newSession))"
    "\<not> aborted (runSearch (js ''plan'') newSession) ! 0"
    by code_simp+
  have closed: "abortController (onClose (runSearch (js ''plan'') newSession)) = Some 0"
    "0 < length (aborted (onClose (runSearch (js ''plan'') newSession)))"
    "aborted (onClose (runSearch (js ''plan'') newSession)) ! 0"
    by code_simp+
  have t1: "(if trim (js ''collection not found'' @ [0x0A]) \<noteq> [] then trim (js ''collection not found'' @ [0x0A])
             else js ''QMD exited with code '' @ codeToString (Some 1)) = js ''collection not found''"
    by code_simp
  have t2: "(if trim [0x20, 0x0A] \<noteq> [] then trim [0x20, 0x0A]
             else js ''QMD exited with code '' @ codeToString (Some 127)) = js ''QMD exited with code 127''"
    by code_simp
  from close_handler_exit_codes [OF live(1,2), of "Some 1" 1
      referenceRuntime defaultSettings "[]" "js ''collection not found'' @ [0x0A]"] live(3) t1
  have c1: "statusEl (step referenceRuntime defaultSettings (runSearch (js ''plan'') newSession)
       (ChildClose 0 (Some 1) [] (js ''collection not found'' @ [0x0A]))) =
     ShowError (js ''collection not found'')"
    by simp
  from close_handler_exit_codes [OF live(1,2), of "Some 127" 127
      referenceRuntime defaultSettings "[]" "[0x20, 0x0A]"] live(3) t2
  have c2: "statusEl (step referenceRuntime defaultSettings (runSearch (js ''plan'') newSession)
       (ChildClose 0 (Some 127) [] [0x20, 0x0A])) = ShowError (js ''QMD exited with code 127'')"
    by simp
  from close_handler_exit_codes [OF live(1,2), of None 0
      referenceRuntime defaultSettings oneResult "[]"] live(3)
  have c3: "step referenceRuntime defaultSettings (runSearch (js ''plan'') newSession)
       (ChildClose 0 None oneResult []) =
     parseAndRender referenceRuntime defaultSettings oneResult (runSearch (js ''plan'') newSession)"
    by simp
  from close_handler_exit_codes [OF closed(1,2), of "Some 1" 1
      referenceRuntime defaultSettings "[]" "[]"] closed(3)
  have c4: "step referenceRuntime defaultSettings (onClose (runSearch (js ''plan'') newSession))
       (ChildClose 0 (Some 1) [] []) = onClose (runSearch (js ''plan'') newSession)"
    by simp
  from live closed c1 c2 c3 c4 show ?thesis by simp
qed

text \<open>
  The claim as it was written fails at the close of the current controller's own child,
  killed from outside the session: with a null exit code and a controller that is not
  aborted, an empty output gives the empty-results status, an output with an array
  gives results, and an output that does not parse gives an error.
\<close>

theorem null_exit_code_counterexample:
  "abortController (runSearch (js ''plan'') newSession) = Some 0 \<and>
   \<not> aborted (runSearch (js ''plan'') newSession) ! 0 \<and>
   statusEl (runSearch (js ''plan'') newSession) = ShowSearching \<and>
   statusEl (step referenceRuntime defaultSettings (runSearch (js ''plan'') newSession)
       (ChildClose 0 None [] [])) = ShowNoResults \<and>
   results (step referenceRuntime defaultSettings (runSearch (js ''plan'') newSession)
       (ChildClose 0 None oneResult [])) = [JObject [(js ''file'', JString (js ''new.md''))]] \<and>
   statusEl (step referenceRuntime defaultSettings (runSearch (js ''plan'') newSession)
       (ChildClose 0 None (js ''[oops]'') [])) = ShowError (parseFailureMessage defaultSettings)"
  by code_simp

section \<open>Properties of the selection\<close>

text \<open>
  Claim C7. With a list of results that is not empty, moving backward from index 0 lands
  on the last index and moving forward from the last index lands on 0. With an empty
  list \<^verbatim>\<open>moveSelection\<close> changes nothing, so that a selection that is valid for the
  empty list, which is -1, stays -1. The results are never changed.
\<close>

theorem moveSelection_circular:
  "(results s \<noteq> [] \<and> selectedIndex s = 0 \<longrightarrow>
      selectedIndex (moveSelection (-1) s) = int (length (results s)) - 1) \<and>
   (results s \<noteq> [] \<and> selectedIndex s = int (length (results s)) - 1 \<longrightarrow>
      selectedIndex (moveSelection 1 s) = 0) \<and>
   (results s = [] \<longrightarrow> moveSelection delta s = s) \<and>
   (results s = [] \<and>
    (selectedIndex s = -1 \<or> (0 \<le> selectedIndex s \<and> selectedIndex s < int (length (results s)))) \<longrightarrow>
      selectedIndex (moveSelection delta s) = -1) \<and>
   results (moveSelection delta s) = results s"
  by (auto simp add: moveSelection_def Let_def)

theorem moveSelection_circular_witness:
  "results threeShown \<noteq> [] \<and> int (length (results threeShown)) - 1 = 2 \<and>
   selectedIndex (moveSelection (-1) (threeShown\<lparr>selectedIndex := 0\<rparr>)) = 2 \<and>
   selectedIndex (moveSelection 1 (threeShown\<lparr>selectedIndex := 2\<rparr>)) = 0 \<and>
   results newSession = [] \<and> selectedIndex newSession = -1 \<and>
   moveSelection 1 newSession = newSession \<and>
   selectedIndex (moveSelection (-1) newSession) = -1"
proof -
  have h: "results threeShown \<noteq> []" "int (length (results threeShown)) - 1 = 2"
    "results newSession = []" "selectedIndex newSession = -1"
    by code_simp+
  from h moveSelection_circular [of "threeShown\<lparr>selectedIndex := 0\<rparr>" 1]
  have c1: "selectedIndex (moveSelection (-1) (threeShown\<lparr>selectedIndex := 0\<rparr>)) = 2"
    by simp
  from h moveSelection_circular [of "threeShown\<lparr>selectedIndex := 2\<rparr>" 1]
  have c2: "selectedIndex (moveSelection 1 (threeShown\<lparr>selectedIndex := 2\<rparr>)) = 0"
    by simp
  from h moveSelection_circular [of newSession 1]
  have c3: "moveSelection 1 newSession = newSession" by simp
  from h moveSelection_circular [of newSession "-1"]
  have c4: "selectedIndex (moveSelection (-1) newSession) = -1" by simp
  from h c1 c2 c3 c4 show ?thesis by simp
qed

section \<open>Sessions without stale child events\<close>

text \<open>
  As long as every close comes from the child of the current controller, the selection
  is -1 whenever the close handler replaces the results, and the invariant of the data
  model holds in every state.
\<close>

lemma renderLoop_bound: "fst (renderLoop rt items i) \<le> i + length items"
proof (induction items arbitrary: i)
  case Nil
  show ?case by simp
next
  case (Cons item rest)
  from Cons.IH [of "i + 1"] show ?case by simp
qed

lemma renderResults_bound: "renderResults rt items = (n, thrown) \<Longrightarrow> n \<le> length items"
  using renderLoop_bound [of rt items 0] by (simp add: renderResults_def)


lemma abortCurrent_fields:
  "results (abortCurrent s) = results s" "selectedIndex (abortCurrent s) = selectedIndex s"
  "rows (abortCurrent s) = rows s"
  by (simp_all add: abortCurrent_def abort_def split: option.splits)

lemma onClose_valid: "selectionValid s \<Longrightarrow> selectionValid (onClose s)"
  by (simp add: selectionValid_def onClose_def abortCurrent_fields)

lemma onClose_searching: "searching s \<Longrightarrow> searching (onClose s)"
  by (simp add: searching_def onClose_def abortCurrent_fields)

lemma runSearch_searching: "query \<noteq> [] \<Longrightarrow> searching (runSearch query s)"
  by (simp add: searching_def runSearch_def Let_def)

lemma searching_valid: "searching s \<Longrightarrow> selectionValid s"
  by (simp add: searching_def selectionValid_def)

lemma moveSelection_valid: "selectionValid s \<Longrightarrow> selectionValid (moveSelection delta s)"
  by (auto simp add: selectionValid_def moveSelection_def Let_def)

lemma moveSelection_searching: "searching s \<Longrightarrow> moveSelection delta s = s"
  by (simp add: searching_def moveSelection_def)

lemma parseAndRender_valid: "searching s \<Longrightarrow> selectionValid (parseAndRender rt st out s)"
  by (auto simp add: parseAndRender_def searching_def selectionValid_def Let_def
      split: option.splits json.splits prod.splits dest: renderResults_bound)

lemma status_only_valid: "selectionValid s \<Longrightarrow> selectionValid (s\<lparr>statusEl := d\<rparr>)"
  by (simp add: selectionValid_def)

lemma onChildClose_valid:
  "searching s \<Longrightarrow> selectionValid (onChildClose rt st code out err s)"
  by (simp add: onChildClose_def parseAndRender_valid searching_valid status_only_valid)

lemma onChildError_valid: "selectionValid s \<Longrightarrow> selectionValid (onChildError m s)"
  by (simp add: onChildError_def status_only_valid)

lemma onChildError_searching: "searching s \<Longrightarrow> searching (onChildError m s)"
  by (simp add: onChildError_def searching_def)


lemma runSearch_valid: "selectionValid s \<Longrightarrow> selectionValid (runSearch q s)"
proof (cases "q = []")
  case True
  assume "selectionValid s"
  with True show ?thesis by (simp add: runSearch_def)
next
  case False
  then show ?thesis by (intro searching_valid runSearch_searching)
qed

lemma onEnter_valid: "selectionValid s \<Longrightarrow> selectionValid (onEnter q s)"
  unfolding onEnter_def by (simp add: onClose_valid runSearch_valid)

lemma onEnter_searching:
  assumes "if selectedIndex s \<ge> 0 \<and> length (results s) > 0 then w
           else if q = [] then w else True"
    and "w \<Longrightarrow> searching s"
  shows "searching (onEnter q s)"
proof (cases "selectedIndex s \<ge> 0 \<and> length (results s) > 0")
  case True
  with assms have "searching s" by simp
  with True show ?thesis by (simp add: searching_def)
next
  case False
  then have enter: "onEnter q s = runSearch q s"
    unfolding onEnter_def by (rule if_not_P)
  show ?thesis
  proof (cases "q = []")
    case True
    with False assms have "searching s" by simp
    with True enter show ?thesis by (simp add: runSearch_def)
  next
    case nonempty: False
    then show ?thesis by (simp add: enter runSearch_searching)
  qed
qed

lemma onMouseEnter_valid: "selectionValid s \<Longrightarrow> selectionValid (onMouseEnter i s)"
  by (auto simp add: selectionValid_def onMouseEnter_def)

lemma onMouseEnter_searching: "searching s \<Longrightarrow> onMouseEnter i s = s"
  by (simp add: searching_def onMouseEnter_def)

lemma resetSelection_valid: "selectionValid s \<Longrightarrow> selectionValid (resetSelection s)"
  by (simp add: selectionValid_def resetSelection_def)

lemma resetSelection_searching: "searching s \<Longrightarrow> searching (resetSelection s)"
  by (simp add: searching_def resetSelection_def)

lemma staleFree_valid:
  "staleFree rt st w s es \<Longrightarrow> selectionValid s \<Longrightarrow> (w \<Longrightarrow> searching s) \<Longrightarrow>
   selectionValid (foldl (step rt st) s es)"
proof (induction es arbitrary: w s)
  case Nil
  then show ?case by simp
next
  case (Cons e es)
  note valid = Cons.prems(2) and wait = Cons.prems(3)
  show ?case
  proof (cases e)
    case (Enter q)
    define w' where "w' = (if selectedIndex s \<ge> 0 \<and> length (results s) > 0 then w
                           else if q = [] then w else True)"
    from Cons.prems(1) Enter have "staleFree rt st w' (onEnter q s) es"
      by (simp add: w'_def)
    moreover have "selectionValid (onEnter q s)" using valid by (rule onEnter_valid)
    moreover have "searching (onEnter q s)" if "w'"
      using that wait unfolding w'_def by (intro onEnter_searching [of s w q]) simp_all
    ultimately have "selectionValid (foldl (step rt st) (onEnter q s) es)"
      by (rule Cons.IH)
    with Enter show ?thesis by simp
  next
    case ArrowDown
    from Cons.prems(1) ArrowDown have "staleFree rt st w (moveSelection 1 s) es" by simp
    moreover have "selectionValid (moveSelection 1 s)" using valid by (rule moveSelection_valid)
    moreover have "searching (moveSelection 1 s)" if w
      using wait [OF that] by (simp add: moveSelection_searching)
    ultimately have "selectionValid (foldl (step rt st) (moveSelection 1 s) es)"
      by (rule Cons.IH)
    with ArrowDown show ?thesis by simp
  next
    case ArrowUp
    from Cons.prems(1) ArrowUp have "staleFree rt st w (moveSelection (-1) s) es" by simp
    moreover have "selectionValid (moveSelection (-1) s)"
      using valid by (rule moveSelection_valid)
    moreover have "searching (moveSelection (-1) s)" if w
      using wait [OF that] by (simp add: moveSelection_searching)
    ultimately have "selectionValid (foldl (step rt st) (moveSelection (-1) s) es)"
      by (rule Cons.IH)
    with ArrowUp show ?thesis by simp
  next
    case Escape
    define s' where "s' = (if selectedIndex s \<ge> 0 then resetSelection s else s)"
    from Cons.prems(1) Escape have "staleFree rt st w s' es" by (simp add: s'_def)
    moreover have "selectionValid s'"
      using valid by (simp add: s'_def resetSelection_valid)
    moreover have "searching s'" if w
      using wait [OF that] by (simp add: s'_def resetSelection_searching)
    ultimately have "selectionValid (foldl (step rt st) s' es)" by (rule Cons.IH)
    with Escape show ?thesis by (simp add: s'_def)
  next
    case FocusOrInput
    from Cons.prems(1) FocusOrInput have "staleFree rt st w (resetSelection s) es" by simp
    moreover have "selectionValid (resetSelection s)"
      using valid by (rule resetSelection_valid)
    moreover have "searching (resetSelection s)" if w
      using wait [OF that] by (rule resetSelection_searching)
    ultimately have "selectionValid (foldl (step rt st) (resetSelection s) es)"
      by (rule Cons.IH)
    with FocusOrInput show ?thesis by simp
  next
    case (MouseEnter i)
    from Cons.prems(1) MouseEnter have "staleFree rt st w (onMouseEnter i s) es" by simp
    moreover have "selectionValid (onMouseEnter i s)"
      using valid by (rule onMouseEnter_valid)
    moreover have "searching (onMouseEnter i s)" if w
      using wait [OF that] by (simp add: onMouseEnter_searching)
    ultimately have "selectionValid (foldl (step rt st) (onMouseEnter i s) es)"
      by (rule Cons.IH)
    with MouseEnter show ?thesis by simp
  next
    case (Click i)
    define s' where "s' = (if i < rows s then onClose s else s)"
    from Cons.prems(1) Click have "staleFree rt st w s' es" by (simp add: s'_def)
    moreover have "selectionValid s'" using valid by (simp add: s'_def onClose_valid)
    moreover have "searching s'" if w
      using wait [OF that] by (simp add: s'_def onClose_searching)
    ultimately have "selectionValid (foldl (step rt st) s' es)" by (rule Cons.IH)
    with Click show ?thesis by (simp add: s'_def)
  next
    case (ChildClose k code out err)
    from Cons.prems(1) ChildClose have w: w
      and sf: "staleFree rt st False (onChildClose rt st code out err s) es"
      by simp_all
    have "selectionValid (onChildClose rt st code out err s)"
      using wait [OF w] by (rule onChildClose_valid)
    with sf have "selectionValid (foldl (step rt st) (onChildClose rt st code out err s) es)"
      by (rule Cons.IH) simp
    with ChildClose show ?thesis by simp
  next
    case (ChildError k m)
    from Cons.prems(1) ChildError have "staleFree rt st w (onChildError m s) es" by simp
    moreover have "selectionValid (onChildError m s)" using valid by (rule onChildError_valid)
    moreover have "searching (onChildError m s)" if w
      using wait [OF that] by (rule onChildError_searching)
    ultimately have "selectionValid (foldl (step rt st) (onChildError m s) es)"
      by (rule Cons.IH)
    with ChildError show ?thesis by simp
  next
    case CloseModal
    from Cons.prems(1) CloseModal have "staleFree rt st w (onClose s) es" by simp
    moreover have "selectionValid (onClose s)" using valid by (rule onClose_valid)
    moreover have "searching (onClose s)" if w
      using wait [OF that] by (rule onClose_searching)
    ultimately have "selectionValid (foldl (step rt st) (onClose s) es)" by (rule Cons.IH)
    with CloseModal show ?thesis by simp
  qed
qed

lemma selection_valid_without_stale_events:
  "staleFree rt st False newSession events \<Longrightarrow> selectionValid (run rt st events)"
  unfolding run_def
  by (rule staleFree_valid [where w = False]) (simp_all add: selectionValid_def newSession_def)


lemma staleFree_examples:
  "staleFree referenceRuntime defaultSettings False newSession
     [Enter (js ''plan''), ChildClose 0 (Some 0) threeResults [], ArrowUp, FocusOrInput,
      Enter (js ''other''), ChildClose 1 (Some 0) oneResult []] \<and>
   \<not> staleFree referenceRuntime defaultSettings False newSession
     (supersededTrace @ [ChildClose 0 None threeResults []])"
  by code_simp

section \<open>Superseded invocations\<close>

lemma runSearch_cancels_previous:
  assumes "query \<noteq> []" and "abortController s = Some k"
    and "k < length (aborted s)" and "k < length (killed s)"
  shows "aborted (runSearch query s) ! k"
    and "\<not> aborted s ! k \<Longrightarrow> killed (runSearch query s) ! k"
    and "abortController (runSearch query s) = Some (length (aborted s))"
    and "\<not> currentAborted (runSearch query s)"
  using assms
  by (auto simp add: runSearch_def abortCurrent_def abort_def Let_def nth_append
      currentAborted_def)

lemma close_after_runSearch_is_processed:
  "query \<noteq> [] \<Longrightarrow>
   onChildClose rt st None out err (runSearch query s) =
   parseAndRender rt st out (runSearch query s)"
  by (simp add: onChildClose_def currentAborted_def runSearch_def abortCurrent_def abort_def
      Let_def nth_append split: option.splits)


text \<open>
  Claim C1 at a concrete session. When the second search is submitted, the controller
  of the first is aborted and its child is killed. The handlers of the first child then
  look at the controller of the second, which is not aborted: the close of the first
  child with no output replaces the busy indicator by the empty-results status, its
  close with an array fills \<^verbatim>\<open>results\<close> and hides the status, and its failure shows
  its error.
\<close>

theorem superseded_invocation_output_is_used:
  "aborted (run referenceRuntime defaultSettings supersededTrace) = [True, False] \<and>
   killed (run referenceRuntime defaultSettings supersededTrace) = [True, False] \<and>
   abortController (run referenceRuntime defaultSettings supersededTrace) = Some 1 \<and>
   statusEl (run referenceRuntime defaultSettings supersededTrace) = ShowSearching \<and>
   statusEl (run referenceRuntime defaultSettings
      (supersededTrace @ [ChildClose 0 None [] []])) = ShowNoResults \<and>
   results (run referenceRuntime defaultSettings
      (supersededTrace @ [ChildClose 0 None threeResults []])) =
     [JObject [(js ''file'', JString (js ''a.md''))],
      JObject [(js ''file'', JString (js ''b.md''))],
      JObject [(js ''file'', JString (js ''c.md''))]] \<and>
   statusEl (run referenceRuntime defaultSettings
      (supersededTrace @ [ChildClose 0 None threeResults []])) = DisplayNone \<and>
   statusEl (run referenceRuntime defaultSettings
      (supersededTrace @ [ChildClose 0 (Some 1) [] (js ''boom'')])) = ShowError (js ''boom'') \<and>
   statusEl (run referenceRuntime defaultSettings
      (supersededTrace @ [ChildError 0 (js ''kill EPERM'')])) = ShowError (js ''kill EPERM'')"
  by code_simp

text \<open>
  Claim C8 at a concrete session. The close of the superseded child brings three
  results, the selection moves to the last of them, and the close of the current child
  replaces the results by one result without touching the selection: index 2 of a list
  of length 1.
\<close>

theorem selection_out_of_range_after_superseded_close:
  "selectedIndex (run referenceRuntime defaultSettings
      (supersededTrace @
       [ChildClose 0 None threeResults [], ArrowUp, ChildClose 1 (Some 0) oneResult []])) = 2 \<and>
   length (results (run referenceRuntime defaultSettings
      (supersededTrace @
       [ChildClose 0 None threeResults [], ArrowUp, ChildClose 1 (Some 0) oneResult []]))) = 1"
  by code_simp

section \<open>Sanitizing and escaping by hand\<close>

lemma lexFrom_Nil_lenient: "lexFrom a st [] = lexFrom b st []"
  by (cases st) simp_all

lemma control_plain: "ch < (0x20 :: jschar) \<Longrightarrow> ch \<noteq> DQUOTE \<and> ch \<noteq> BACKSLASH"
  by auto

lemma hexValue_control: "ch < (0x20 :: jschar) \<Longrightarrow> hexValue ch = None"
  by (simp add: hexValue_def word_less_nat_alt word_le_nat_alt)

lemma hexValue_plain:
  "hexValue ch = Some d \<Longrightarrow> ch \<noteq> DQUOTE \<and> ch \<noteq> BACKSLASH \<and> \<not> ch < 0x20"
  by (auto simp add: hexValue_def word_less_nat_alt word_le_nat_alt split: if_splits)

lemma lex_escape_pair:
  "x \<noteq> 0x75 \<Longrightarrow> escapeChar x = Some d \<Longrightarrow>
   lexFrom l (LStr acc) (BACKSLASH # x # rest) = lexFrom l (LStr (acc @ [d])) rest"
  by simp

lemma lex_escape_unicode:
  "hexValue h1 = Some d1 \<Longrightarrow> hexValue h2 = Some d2 \<Longrightarrow> hexValue h3 = Some d3 \<Longrightarrow>
   hexValue h4 = Some d4 \<Longrightarrow>
   lexFrom l (LStr acc) (BACKSLASH # 0x75 # h1 # h2 # h3 # h4 # rest) =
   lexFrom l (LStr (acc @ [codeUnit4 [d1, d2, d3, d4]])) rest"
  by simp

lemma lex_decoded_escape:
  assumes "decodeEscape e = Some d"
  shows "lexFrom l (LStr acc) (e @ rest) = lexFrom l (LStr (acc @ [d])) rest"
  using assms
proof (induction e rule: decodeEscape.induct)
  case (1 b x)
  then have b: "b = BACKSLASH" and x: "x \<noteq> 0x75" "escapeChar x = Some d"
    by (simp_all split: if_splits)
  show ?case
    unfolding b append_Cons append_Nil
    by (rule lex_escape_pair [OF x])
next
  case (2 b u h1 h2 h3 h4)
  then have bu: "b = BACKSLASH" "u = 0x75"
    by (simp_all split: if_splits)
  with 2 obtain d1 d2 d3 d4 where h: "hexValue h1 = Some d1" "hexValue h2 = Some d2"
    "hexValue h3 = Some d3" "hexValue h4 = Some d4" "d = codeUnit4 [d1, d2, d3, d4]"
    by (auto split: option.splits)
  show ?case
    unfolding bu h(5) append_Cons append_Nil
    by (rule lex_escape_unicode [OF h(1-4)])
qed simp_all


lemma step_kept:
  assumes ok: "\<not> (posOf st = Inside \<and> ch < 0x20)"
    and run: "lexFrom True st (ch # rest) = Some ts"
    and hyp: "\<And>st' ts'. posOf st' = specNext (posOf st) ch \<Longrightarrow>
                lexFrom True st' rest = Some ts' \<Longrightarrow> lexFrom False st' rest' = Some ts'"
  shows "lexFrom False st (ch # rest') = Some ts"
proof (cases st)
  case LOut
  with run hyp show ?thesis
    by (auto split: if_splits option.splits simp add: isJsonSpace_def)
next
  case (LWord w)
  with run hyp show ?thesis
    by (auto split: if_splits option.splits simp add: isJsonSpace_def)
next
  case (LStr acc)
  with ok have "\<not> ch < 0x20" by simp
  with LStr run hyp show ?thesis
    by (auto split: if_splits option.splits)
next
  case (LEsc acc)
  with run hyp show ?thesis
    by (auto split: if_splits option.splits)
next
  case (LHex acc ds)
  with run obtain d where d: "hexValue ch = Some d"
    by (auto split: option.splits)
  from hexValue_plain [OF d] have "specNext Inside ch = Inside" by simp
  with LHex run hyp d show ?thesis
    by (auto split: if_splits option.splits)
qed


lemma escaped_lexes_alike:
  "manuallyEscaped p src escaped \<Longrightarrow> posOf st = p \<Longrightarrow>
   lexFrom True st src = Some ts \<Longrightarrow> lexFrom False st escaped = Some ts"
proof (induction src arbitrary: p escaped st ts)
  case Nil
  then show ?case using lexFrom_Nil_lenient [of False st True] by simp
next
  case (Cons ch rest)
  show ?case
  proof (cases "p = Inside \<and> ch < 0x20")
    case False
    with Cons.prems(1) obtain others where others: "escaped = ch # others"
      "manuallyEscaped (specNext p ch) rest others"
      by (auto split: list.splits)
    have "lexFrom False st (ch # others) = Some ts"
    proof (rule step_kept)
      show "\<not> (posOf st = Inside \<and> ch < 0x20)" using False Cons.prems(2) by simp
      show "lexFrom True st (ch # rest) = Some ts" by (rule Cons.prems(3))
      show "lexFrom False st' others = Some ts'"
        if "posOf st' = specNext (posOf st) ch" "lexFrom True st' rest = Some ts'" for st' ts'
        using that Cons.IH [OF others(2), of st' ts'] Cons.prems(2) by simp
    qed
    with others(1) show ?thesis by simp
  next
    case True
    then have ctl: "ch < 0x20" and p: "p = Inside" by simp_all
    from ctl have plain: "ch \<noteq> DQUOTE" "ch \<noteq> BACKSLASH"
      using control_plain [of ch] by simp_all
    from True Cons.prems(1) obtain n where n: "decodeEscape (take n escaped) = Some ch"
      "manuallyEscaped Inside rest (drop n escaped)"
      by auto
    show ?thesis
    proof (cases st)
      case (LStr acc)
      with Cons.prems(3) plain have "lexFrom True (LStr (acc @ [ch])) rest = Some ts"
        by simp
      with n(2) have "lexFrom False (LStr (acc @ [ch])) (drop n escaped) = Some ts"
        by (intro Cons.IH [of Inside]) simp_all
      then have "lexFrom False (LStr acc) (take n escaped @ drop n escaped) = Some ts"
        by (simp only: lex_decoded_escape [OF n(1)])
      with LStr show ?thesis by simp
    next
      case (LHex acc ds)
      with Cons.prems(3) hexValue_control [OF ctl] show ?thesis by simp
    qed (use Cons.prems(2) p in simp_all)
  qed
qed

lemma hexValue_hexDigit: "d < 16 \<Longrightarrow> hexValue (hexDigit d) = Some d"
proof -
  assume d: "d < 16"
  have u: "unat (hexDigit d) = (if d < 10 then 48 + d else 87 + d)"
    by (rule unat_hexDigit [OF d])
  show ?thesis
  proof (cases "d < 10")
    case True
    with u have "48 \<le> unat (hexDigit d)" "unat (hexDigit d) \<le> 57" "unat (hexDigit d) - 48 = d"
      by simp_all
    then show ?thesis by (simp add: hexValue_def word_le_nat_alt)
  next
    case False
    with u d have "97 \<le> unat (hexDigit d)" "unat (hexDigit d) \<le> 102"
      "\<not> unat (hexDigit d) \<le> 57" "unat (hexDigit d) - 87 = d"
      by simp_all
    then show ?thesis by (simp add: hexValue_def word_le_nat_alt)
  qed
qed

lemma decode_unicodeEscape4:
  assumes "ch < 0x20"
  shows "decodeEscape (unicodeEscape4 ch) = Some ch"
proof -
  from assms have small: "unat ch < 32" by (simp add: word_less_nat_alt)
  then have d: "unat ch div 4096 < 16" "unat ch div 256 mod 16 < 16"
    "unat ch div 16 mod 16 < 16" "unat ch mod 16 < 16"
    by simp_all
  from small have z: "unat ch div 4096 = 0" "unat ch div 256 mod 16 = 0" by simp_all
  have "codeUnit4 [unat ch div 4096, unat ch div 256 mod 16, unat ch div 16 mod 16, unat ch mod 16]
        = ch"
    using small by (simp add: codeUnit4_def z)
  then show ?thesis
    unfolding unicodeEscape4_def
    by (simp add: hexValue_hexDigit [OF d(1)] hexValue_hexDigit [OF d(2)]
        hexValue_hexDigit [OF d(3)] hexValue_hexDigit [OF d(4)])
qed

lemma decode_specEmit: "ch < 0x20 \<Longrightarrow> decodeEscape (specEmit Inside ch) = Some ch"
  by (simp add: decode_unicodeEscape4 escapeChar_def)

lemma specEmit_length: "ch < 0x20 \<Longrightarrow> length (specEmit Inside ch) = 2 \<or> length (specEmit Inside ch) = 6"
  by (simp add: unicodeEscape4_def)

lemma sanitizeSpec_manuallyEscaped: "manuallyEscaped p src (sanitizeSpec p src)"
proof (induction src arbitrary: p)
  case Nil
  show ?case by simp
next
  case (Cons ch rest)
  show ?case
  proof (cases "p = Inside \<and> ch < 0x20")
    case True
    then have next_pos: "specNext Inside ch = Inside"
      using control_plain [of ch] by simp
    define e where "e = specEmit Inside ch"
    have dec: "decodeEscape e = Some ch"
      unfolding e_def using True by (intro decode_specEmit) simp
    have len: "length e = 2 \<or> length e = 6"
      unfolding e_def using True by (intro specEmit_length) simp
    have out: "sanitizeSpec p (ch # rest) = e @ sanitizeSpec Inside rest"
      using True next_pos by (simp add: e_def)
    from len show ?thesis
    proof
      assume "length e = 2"
      then have "take 2 (e @ sanitizeSpec Inside rest) = e"
        "drop 2 (e @ sanitizeSpec Inside rest) = sanitizeSpec Inside rest"
        by simp_all
      with dec Cons.IH [of Inside] True show ?thesis
        unfolding out by (simp del: specEmit.simps)
    next
      assume "length e = 6"
      then have "take 6 (e @ sanitizeSpec Inside rest) = e"
        "drop 6 (e @ sanitizeSpec Inside rest) = sanitizeSpec Inside rest"
        by simp_all
      with dec Cons.IH [of Inside] True show ?thesis
        unfolding out by (simp del: specEmit.simps)
    qed
  next
    case False
    then have "specEmit p ch = [ch]"
      using not_control_plain [of ch] by (cases p) auto
    with False Cons.IH [of "specNext p ch"] show ?thesis
      by auto
  qed
qed

lemma sanitized_parses_as_lenient:
  "lenientParse src = Some v \<Longrightarrow> JSON_parse (sanitizeJson src) = Some v"
proof -
  assume "lenientParse src = Some v"
  then obtain ts where ts: "lexFrom True LOut src = Some ts" "parseTokens (PValue []) ts = Some v"
    by (auto simp add: lenientParse_def parseWith_def split: option.splits)
  from escaped_lexes_alike [OF sanitizeSpec_manuallyEscaped _ ts(1)]
  have "lexFrom False LOut (sanitizeSpec Outside src) = Some ts" by simp
  with ts(2) show ?thesis
    by (simp add: JSON_parse_def parseWith_def sanitizeJson_spec)
qed

lemma escaped_parses_as_lenient:
  "lenientParse src = Some v \<Longrightarrow> manuallyEscaped Outside src escaped \<Longrightarrow>
   JSON_parse escaped = Some v"
proof -
  assume "lenientParse src = Some v" and esc: "manuallyEscaped Outside src escaped"
  then obtain ts where ts: "lexFrom True LOut src = Some ts" "parseTokens (PValue []) ts = Some v"
    by (auto simp add: lenientParse_def parseWith_def split: option.splits)
  from escaped_lexes_alike [OF esc _ ts(1)]
  have "lexFrom False LOut escaped = Some ts" by simp
  with ts(2) show ?thesis
    by (simp add: JSON_parse_def parseWith_def)
qed

text \<open>
  Claim C4. When the text between the brackets of a raw output is a JSON array but for
  raw control characters inside its strings, sanitizing and parsing it gives the value
  that parsing its manually escaped equivalent gives: the array the text denotes.
\<close>

theorem sanitize_then_parse_equals_escaped_parse:
  assumes "lenientParse (jsonStr raw) = Some (JArray items)"
    and "manuallyEscaped Outside (jsonStr raw) escaped"
  shows "JSON_parse (sanitizeJson (jsonStr raw)) = JSON_parse escaped \<and>
         JSON_parse escaped = Some (JArray items)"
  using assms sanitized_parses_as_lenient [of "jsonStr raw" "JArray items"]
    escaped_parses_as_lenient [of "jsonStr raw" "JArray items" escaped]
  by simp

theorem sanitize_then_parse_equals_escaped_parse_witness:
  "lenientParse (jsonStr dirtyOutput) = Some (JArray [JString [0x61, 0x0A, 0x62, 0x09]]) \<and>
   manuallyEscaped Outside (jsonStr dirtyOutput) dirtyOutputEscaped \<and>
   JSON_parse (jsonStr dirtyOutput) = None \<and>
   sanitizeJson (jsonStr dirtyOutput) \<noteq> dirtyOutputEscaped \<and>
   JSON_parse (sanitizeJson (jsonStr dirtyOutput)) = JSON_parse dirtyOutputEscaped \<and>
   JSON_parse dirtyOutputEscaped = Some (JArray [JString [0x61, 0x0A, 0x62, 0x09]])"
proof -
  have h1: "lenientParse (jsonStr dirtyOutput) = Some (JArray [JString [0x61, 0x0A, 0x62, 0x09]])"
    by code_simp
  have h2: "manuallyEscaped Outside (jsonStr dirtyOutput) dirtyOutputEscaped"
    by code_simp
  have h3: "JSON_parse (jsonStr dirtyOutput) = None"
    by code_simp
  have h4: "sanitizeJson (jsonStr dirtyOutput) \<noteq> dirtyOutputEscaped"
    by code_simp
  from sanitize_then_parse_equals_escaped_parse [OF h1 h2] h1 h2 h3 h4
  show ?thesis by simp
qed

end
